theory Spec2Isabelle
  imports Main "HOL-Library.AList" "HOL-Library.Sublist"
begin

section \<open>The value tree\<close>

text \<open>
  \<^verbatim>\<open>json.Unmarshal\<close> into an \<^verbatim>\<open>interface{}\<close> yields \<^verbatim>\<open>nil\<close>, \<^verbatim>\<open>bool\<close>,
  \<^verbatim>\<open>float64\<close>, \<^verbatim>\<open>string\<close>, \<^verbatim>\<open>map[string]interface{}\<close> or \<^verbatim>\<open>[]interface{}\<close>.
  The constructor \<open>JNil\<close> is Go's \<^verbatim>\<open>nil\<close>: it is what a JSON \<^verbatim>\<open>null\<close> parses to and
  also what \<^verbatim>\<open>stripRecursive\<close> and \<^verbatim>\<open>trimFields\<close> return for a value they drop; the
  code cannot tell the two apart, and neither can the model.

  A number is never inspected by the code, only passed on and serialised, so \<open>JNumber\<close>
  carries the text \<^verbatim>\<open>encoding/json\<close> prints for the \<^verbatim>\<open>float64\<close> (\<open>''1''\<close>, \<open>''2.5''\<close>).
  A string is its sequence of bytes, as Go's \<^verbatim>\<open>len\<close> and slicing see it.
  A map is an association list; its order stands for the order in which a \<^verbatim>\<open>range\<close>
  over the map visits the entries, which Go leaves unspecified.
\<close>

datatype json =
    JNil
  | JBool bool
  | JNumber string
  | JString string
  | JObject "(string \<times> json) list"
  | JArray "json list"

definition Marker :: string where
  "Marker = ''[TRIMMED]''"

datatype error = ParseError | ErrCannotTrim | Panic

section \<open>Configuration\<close>

datatype TruncStrategy =
    RemoveLargest
  | FIFO
  | PrioritizeKeys "string list" "TruncStrategy option"
  | Custom "json \<Rightarrow> string"

record Hooks =
  PreTrim :: "(json \<Rightarrow> json) option"
  PostTrim :: "(json \<Rightarrow> error option \<Rightarrow> json) option"

record Config =
  FieldLimit :: int
  TotalLimit :: int
  Blacklist :: "string list"
  Strategy :: "TruncStrategy option"
  MaxDepth :: int
  TruncateStrings :: bool
  ReplaceWithMarker :: bool
  Hooks :: Hooks

record Trimmer =
  cfg :: Config
  blacklistParts :: "string list list"

section \<open>Library primitives the code calls\<close>

text \<open>\<^verbatim>\<open>strings.HasPrefix\<close>, \<^verbatim>\<open>strings.Split(p, ".")\<close> and \<^verbatim>\<open>fmt.Sprintf("%d", i)\<close>
  for an index \<open>i \<ge> 0\<close>.\<close>

definition HasPrefix :: "string \<Rightarrow> string \<Rightarrow> bool" where
  "HasPrefix s p = (take (length p) s = p)"

fun Split :: "string \<Rightarrow> string list" where
  "Split [] = [[]]"
| "Split (c # cs) =
     (if c = CHR ''.'' then [] # Split cs
      else (case Split cs of [] \<Rightarrow> [[c]] | p # ps \<Rightarrow> (c # p) # ps))"

fun Sprintf_d :: "nat \<Rightarrow> string" where
  "Sprintf_d n =
     (if n < 10 then [''0123456789'' ! n]
      else Sprintf_d (n div 10) @ [''0123456789'' ! (n mod 10)])"

text \<open>\<^verbatim>\<open>fmt.Sscanf(s, "%d", &idx)\<close>: leading space is skipped, one sign is accepted, then
  at least one decimal digit is needed; what follows the digits is left unread. A value
  outside the 64-bit range is an error. Space is what the scanner's table of white space
  holds, read as UTF-8: the one-byte blanks, U+0085 and U+00A0 (two bytes), and U+1680,
  U+2000 to U+200A, U+2028, U+2029, U+202F, U+205F and U+3000 (three bytes). A newline
  is not skipped: it is an error, as is any other byte that is neither space, sign nor
  digit.\<close>

definition is_blank :: "char \<Rightarrow> bool" where
  "is_blank c = (c = CHR '' '' \<or> c = CHR 0x09 \<or> c = CHR 0x0B \<or> c = CHR 0x0C \<or> c = CHR 0x0D)"

definition space2 :: "char \<Rightarrow> char \<Rightarrow> bool" where
  "space2 a b = (a = CHR 0xC2 \<and> (b = CHR 0x85 \<or> b = CHR 0xA0))"

definition space3 :: "char \<Rightarrow> char \<Rightarrow> char \<Rightarrow> bool" where
  "space3 a b c =
     (a = CHR 0xE1 \<and> b = CHR 0x9A \<and> c = CHR 0x80
      \<or> a = CHR 0xE2 \<and> b = CHR 0x80
          \<and> (128 \<le> (of_char c :: nat) \<and> (of_char c :: nat) \<le> 138
              \<or> c = CHR 0xA8 \<or> c = CHR 0xA9 \<or> c = CHR 0xAF)
      \<or> a = CHR 0xE2 \<and> b = CHR 0x81 \<and> c = CHR 0x9F
      \<or> a = CHR 0xE3 \<and> b = CHR 0x80 \<and> c = CHR 0x80)"

fun SkipSpace :: "string \<Rightarrow> string" where
  "SkipSpace (a # b # c # s) =
     (if is_blank a then SkipSpace (b # c # s)
      else if space2 a b then SkipSpace (c # s)
      else if space3 a b c then SkipSpace s
      else a # b # c # s)"
| "SkipSpace [a, b] = (if is_blank a then SkipSpace [b] else if space2 a b then [] else [a, b])"
| "SkipSpace [a] = (if is_blank a then [] else [a])"
| "SkipSpace [] = []"

definition is_digit :: "char \<Rightarrow> bool" where
  "is_digit c = (48 \<le> (of_char c :: nat) \<and> (of_char c :: nat) \<le> 57)"

fun digits_value :: "string \<Rightarrow> nat \<Rightarrow> nat" where
  "digits_value [] acc = acc"
| "digits_value (c # cs) acc = digits_value cs (acc * 10 + (of_char c - 48))"

definition Sscanf_d :: "string \<Rightarrow> int option" where
  "Sscanf_d s =
     (let s1 = SkipSpace s;
          neg = (case s1 of [] \<Rightarrow> False | c # _ \<Rightarrow> c = CHR ''-'');
          s2 = (case s1 of [] \<Rightarrow> [] | c # r \<Rightarrow> if c = CHR ''-'' \<or> c = CHR ''+'' then r else s1);
          ds = takeWhile is_digit s2;
          n = (if neg then - int (digits_value ds 0) else int (digits_value ds 0))
      in if ds = [] then None
         else if n < - 9223372036854775808 \<or> 9223372036854775807 < n then None
         else Some n)"

subsection \<open>\<^verbatim>\<open>json.Marshal\<close>\<close>

text \<open>
  The serialiser of \<^verbatim>\<open>encoding/json\<close> on a value tree. A string is quoted; of the
  bytes below \<open>0x80\<close> the quote and the backslash get a backslash, backspace, form feed,
  newline, carriage return and tab their two-byte escape, every other control byte and
  the three HTML characters a six-byte unicode escape. A byte from \<open>0x80\<close> on is copied
  when it starts a well-formed UTF-8 sequence (the line and paragraph separators apart,
  which are escaped), and becomes the escape of the replacement character when it does
  not. Map entries are printed in the order of their keys. On these trees the serialiser
  has no error.
\<close>

definition hex_digit :: "nat \<Rightarrow> char" where
  "hex_digit n = ''0123456789abcdef'' ! n"

definition htmlSafe :: "char \<Rightarrow> bool" where
  "htmlSafe b = (32 \<le> (of_char b :: nat) \<and> b \<noteq> CHR 0x22 \<and> b \<noteq> CHR 0x26
                 \<and> b \<noteq> CHR 0x3C \<and> b \<noteq> CHR 0x3E \<and> b \<noteq> CHR 0x5C)"

definition escape_byte :: "char \<Rightarrow> string" where
  "escape_byte b =
     (if b = CHR 0x5C \<or> b = CHR 0x22 then [CHR 0x5C, b]
      else if b = CHR 0x08 then [CHR 0x5C, CHR ''b'']
      else if b = CHR 0x0C then [CHR 0x5C, CHR ''f'']
      else if b = CHR 0x0A then [CHR 0x5C, CHR ''n'']
      else if b = CHR 0x0D then [CHR 0x5C, CHR ''r'']
      else if b = CHR 0x09 then [CHR 0x5C, CHR ''t'']
      else [CHR 0x5C, CHR ''u'', CHR ''0'', CHR ''0'',
            hex_digit (of_char b div 16), hex_digit (of_char b mod 16)])"

definition continuation :: "nat \<Rightarrow> bool" where
  "continuation b = (128 \<le> b \<and> b \<le> 191)"

text \<open>The length of the well-formed UTF-8 sequence at the head of the bytes, \<open>0\<close> when
  there is none (\<^verbatim>\<open>utf8.DecodeRuneInString\<close> then returns \<^verbatim>\<open>RuneError\<close> with size 1).\<close>

fun utf8_size :: "nat list \<Rightarrow> nat" where
  "utf8_size [] = 0"
| "utf8_size (b0 # rest) =
     (if 194 \<le> b0 \<and> b0 \<le> 223 then
        (case rest of b1 # _ \<Rightarrow> if continuation b1 then 2 else 0 | _ \<Rightarrow> 0)
      else if 224 \<le> b0 \<and> b0 \<le> 239 then
        (case rest of
           b1 # b2 # _ \<Rightarrow>
             if (if b0 = 224 then 160 else 128) \<le> b1 \<and> b1 \<le> (if b0 = 237 then 159 else 191)
                \<and> continuation b2
             then 3 else 0
         | _ \<Rightarrow> 0)
      else if 240 \<le> b0 \<and> b0 \<le> 244 then
        (case rest of
           b1 # b2 # b3 # _ \<Rightarrow>
             if (if b0 = 240 then 144 else 128) \<le> b1 \<and> b1 \<le> (if b0 = 244 then 143 else 191)
                \<and> continuation b2 \<and> continuation b3
             then 4 else 0
         | _ \<Rightarrow> 0)
      else 0)"

function appendBytes :: "string \<Rightarrow> string" where
  "appendBytes [] = []"
| "appendBytes (b # bs) =
     (if (of_char b :: nat) < 128 then
        (if htmlSafe b then [b] else escape_byte b) @ appendBytes bs
      else
        (let sz = utf8_size (map of_char (take 4 (b # bs))) in
         if sz = 0 then (CHR 0x5C # ''ufffd'') @ appendBytes bs
         else if take 3 (b # bs) = [CHR 0xE2, CHR 0x80, CHR 0xA8] then
           (CHR 0x5C # ''u2028'') @ appendBytes (drop 2 bs)
         else if take 3 (b # bs) = [CHR 0xE2, CHR 0x80, CHR 0xA9] then
           (CHR 0x5C # ''u2029'') @ appendBytes (drop 2 bs)
         else take sz (b # bs) @ appendBytes (drop (sz - 1) bs)))"
  by pat_completeness auto
termination
  by (relation "measure length") auto

definition appendString :: "string \<Rightarrow> string" where
  "appendString s = CHR 0x22 # appendBytes s @ [CHR 0x22]"

fun string_less :: "string \<Rightarrow> string \<Rightarrow> bool" where
  "string_less _ [] = False"
| "string_less [] (y # ys) = True"
| "string_less (x # xs) (y # ys) =
     ((of_char x :: nat) < of_char y \<or> (x = y \<and> string_less xs ys))"

fun insert_by_key :: "string \<times> string \<Rightarrow> (string \<times> string) list \<Rightarrow> (string \<times> string) list" where
  "insert_by_key e [] = [e]"
| "insert_by_key e (f # fs) =
     (if string_less (fst f) (fst e) then f # insert_by_key e fs else e # f # fs)"

definition sort_by_key :: "(string \<times> string) list \<Rightarrow> (string \<times> string) list" where
  "sort_by_key es = foldr insert_by_key es []"

fun join_comma :: "string list \<Rightarrow> string" where
  "join_comma [] = []"
| "join_comma [x] = x"
| "join_comma (x # y # ys) = x @ '','' @ join_comma (y # ys)"

fun marshal :: "json \<Rightarrow> string" where
  "marshal JNil = ''null''"
| "marshal (JBool b) = (if b then ''true'' else ''false'')"
| "marshal (JNumber n) = n"
| "marshal (JString s) = appendString s"
| "marshal (JObject kvs) =
     ''{'' @ join_comma (map (\<lambda>(k, enc). appendString k @ '':'' @ enc)
                          (sort_by_key (map (\<lambda>(k, sub). (k, marshal sub)) kvs))) @ ''}''"
| "marshal (JArray xs) = ''['' @ join_comma (map marshal xs) @ '']''"

section \<open>The size estimator\<close>

fun estimateSize :: "json \<Rightarrow> int" where
  "estimateSize JNil = 0"
| "estimateSize (JString val) = int (length val) + 2"
| "estimateSize (JBool val) = (if val then 4 else 5)"
| "estimateSize (JNumber val) = 8"
| "estimateSize (JObject val) =
     2 + sum_list (map (\<lambda>(k, sub). int (length k) + 2 + 1 + estimateSize sub + 1) val)"
| "estimateSize (JArray val) = 2 + sum_list (map (\<lambda>sub. estimateSize sub + 1) val)"

section \<open>Removal strategies\<close>

text \<open>The two \<^verbatim>\<open>range\<close> loops of \<^verbatim>\<open>RemoveLargest\<close>, with their running maximum; the
  array loop also carries the index.\<close>

fun largest_key :: "(string \<times> json) list \<Rightarrow> string \<Rightarrow> int \<Rightarrow> string" where
  "largest_key [] maxKey maxSize = maxKey"
| "largest_key ((k, val) # rest) maxKey maxSize =
     (let sz = estimateSize val in
      if sz > maxSize then largest_key rest k sz else largest_key rest maxKey maxSize)"

fun largest_idx :: "json list \<Rightarrow> int \<Rightarrow> int \<Rightarrow> int \<Rightarrow> int" where
  "largest_idx [] i maxIdx maxSize = maxIdx"
| "largest_idx (item # rest) i maxIdx maxSize =
     (let sz = estimateSize item in
      if sz > maxSize then largest_idx rest (i + 1) i sz
      else largest_idx rest (i + 1) maxIdx maxSize)"

function SelectNextToRemove :: "TruncStrategy \<Rightarrow> json \<Rightarrow> string" where
  "SelectNextToRemove RemoveLargest v =
     (case v of
        JObject vv \<Rightarrow> largest_key vv [] 0
      | JArray vv \<Rightarrow>
          (let maxIdx = largest_idx vv 0 (- 1) 0 in
           if maxIdx \<ge> 0 then ''idx:'' @ Sprintf_d (nat maxIdx) else [])
      | _ \<Rightarrow> [])"
| "SelectNextToRemove FIFO v =
     (case v of
        JObject vv \<Rightarrow> (case vv of [] \<Rightarrow> [] | (k, _) # _ \<Rightarrow> k)
      | JArray vv \<Rightarrow> (if length vv > 0 then ''idx:'' @ Sprintf_d 0 else [])
      | _ \<Rightarrow> [])"
| "SelectNextToRemove (PrioritizeKeys KeepKeys Fallback) v =
     (let fallback = (case Fallback of None \<Rightarrow> FIFO | Some s \<Rightarrow> s) in
      if length KeepKeys = 0 then SelectNextToRemove fallback v
      else
        (case v of
           JObject vv \<Rightarrow>
             (let candidates = filter (\<lambda>(k, val). k \<notin> set KeepKeys) vv in
              if length candidates > 0 then SelectNextToRemove fallback (JObject candidates)
              else SelectNextToRemove fallback v)
         | _ \<Rightarrow> []))"
| "SelectNextToRemove (Custom f) v = f v"
  by pat_completeness auto
termination
  by (relation "measure (\<lambda>(s, v). size s)") (auto split: option.splits)

section \<open>The trimmer\<close>

text \<open>\<^verbatim>\<open>New\<close> fills the defaults in and splits the blacklist patterns. Each of its \<^verbatim>\<open>if\<close>
  statements tests and assigns one field of its copy of the configuration, which the
  model writes as the new value of that field.\<close>

definition New :: "Config \<Rightarrow> Trimmer" where
  "New c0 =
     (let c = c0
        \<lparr>FieldLimit := (if FieldLimit c0 = 0 then 500 else FieldLimit c0),
         TotalLimit := (if TotalLimit c0 = 0 then 1024 else TotalLimit c0),
         MaxDepth := (if MaxDepth c0 = 0 then 10 else MaxDepth c0),
         Strategy := (if Strategy c0 = None then Some RemoveLargest else Strategy c0),
         Hooks := (Hooks c0)
           \<lparr>PreTrim := (if PreTrim (Hooks c0) = None then Some (\<lambda>v. v)
                        else PreTrim (Hooks c0)),
            PostTrim := (if PostTrim (Hooks c0) = None then Some (\<lambda>v err. v)
                         else PostTrim (Hooks c0))\<rparr>\<rparr>
      in \<lparr>cfg = c, blacklistParts = map Split (Blacklist c)\<rparr>)"

subsection \<open>Blacklist stripping\<close>

fun rule_matches :: "string list \<Rightarrow> string list \<Rightarrow> bool" where
  "rule_matches [] path = True"
| "rule_matches (part # rule) [] = False"
| "rule_matches (part # rule) (seg # path) =
     (if part \<noteq> ''*'' \<and> part \<noteq> seg then False else rule_matches rule path)"

definition matchesBlacklist :: "Trimmer \<Rightarrow> string list \<Rightarrow> bool" where
  "matchesBlacklist t path =
     (if length path = 0 then False
      else list_ex (\<lambda>rule. length rule = length path \<and> rule_matches rule path)
             (blacklistParts t))"

function stripRecursive :: "Trimmer \<Rightarrow> json \<Rightarrow> string list \<Rightarrow> json" where
  "stripRecursive t v currentPath =
     (if matchesBlacklist t currentPath then
        (if ReplaceWithMarker (cfg t) then JString Marker else JNil)
      else
        (case v of
           JObject vv \<Rightarrow>
             JObject (filter (\<lambda>(k, stripped). stripped \<noteq> JNil)
                        (map (\<lambda>(k, val). (k, stripRecursive t val (currentPath @ [k]))) vv))
         | JArray vv \<Rightarrow>
             (let out = filter (\<lambda>stripped. stripped \<noteq> JNil)
                          (map (\<lambda>(i, item). stripRecursive t item (currentPath @ [Sprintf_d i]))
                               (zip [0 ..< length vv] vv))
              in if length out = 0 then JNil else JArray out)
         | _ \<Rightarrow> v))"
  by pat_completeness auto
termination
proof (relation "measure (\<lambda>(t, v, currentPath). size v)")
  fix t :: Trimmer and v :: json and currentPath :: "string list"
    and vv :: "json list" and x :: "nat \<times> json" and i :: nat and item :: json
  assume "v = JArray vv" and "x \<in> set (zip [0 ..< length vv] vv)" and "(i, item) = x"
  then have "item \<in> set vv"
    by (auto dest: set_zip_rightD)
  then have "size item \<le> size_list size vv"
    by (simp add: size_list_estimation')
  with \<open>v = JArray vv\<close>
  show "((t, item, currentPath @ [Sprintf_d i]), (t, v, currentPath))
          \<in> measure (\<lambda>(t, v, currentPath). size v)"
    by simp
qed (auto simp: less_Suc_eq_le size_list_estimation')

declare stripRecursive.simps [simp del]

definition stripBlacklisted :: "Trimmer \<Rightarrow> json \<Rightarrow> json" where
  "stripBlacklisted t v =
     (if length (blacklistParts t) = 0 then v else stripRecursive t v [])"

subsection \<open>Field trimming\<close>

text \<open>The body both container loops of \<^verbatim>\<open>trimFields\<close> run on a trimmed child: a
  \<^verbatim>\<open>nil\<close> child is skipped; a child whose estimate and whose exact size both exceed
  the field limit becomes the marker or is skipped; any other child is kept. The result
  is what the loop stores, if anything.\<close>

definition checkFieldSize :: "Trimmer \<Rightarrow> json \<Rightarrow> json option" where
  "checkFieldSize t trimmed =
     (if trimmed = JNil then None
      else if estimateSize trimmed > FieldLimit (cfg t)
              \<and> int (length (marshal trimmed)) > FieldLimit (cfg t) then
        (if ReplaceWithMarker (cfg t) then Some (JString Marker) else None)
      else Some trimmed)"

text \<open>The depth is a mathematical integer. The code computes \<^verbatim>\<open>depth+1\<close> on a 64-bit
  \<^verbatim>\<open>int\<close>, which agrees with it below \<open>2\<^sup>6\<^sup>3 - 1\<close>; the recursion passes \<^verbatim>\<open>depth+1\<close> on
  only from a depth up to \<open>MaxDepth\<close>, so the two differ only under a \<open>MaxDepth\<close> of
  \<open>2\<^sup>6\<^sup>3 - 1\<close> itself.\<close>

fun trimFields :: "Trimmer \<Rightarrow> json \<Rightarrow> int \<Rightarrow> json" where
  "trimFields t v depth =
     (if depth > MaxDepth (cfg t) then
        (if ReplaceWithMarker (cfg t) then JString Marker else JNil)
      else
        (case v of
           JObject vv \<Rightarrow>
             JObject (concat (map (\<lambda>(k, val).
                        (case checkFieldSize t (trimFields t val (depth + 1)) of
                           None \<Rightarrow> [] | Some kept \<Rightarrow> [(k, kept)])) vv))
         | JArray vv \<Rightarrow>
             JArray (concat (map (\<lambda>item.
                       (case checkFieldSize t (trimFields t item (depth + 1)) of
                          None \<Rightarrow> [] | Some kept \<Rightarrow> [kept])) vv))
         | JString str \<Rightarrow>
             (if int (length str) > FieldLimit (cfg t) then
                (let newLen = FieldLimit (cfg t) - 6 in
                 if TruncateStrings (cfg t) \<and> newLen > 0 \<and> int (length str) > newLen then
                   JString (take (nat newLen) str @ ''...'')
                 else if ReplaceWithMarker (cfg t) then JString Marker
                 else JNil)
              else v)
         | _ \<Rightarrow> v))"

declare trimFields.simps [simp del]

subsection \<open>Total enforcement\<close>

text \<open>The \<^verbatim>\<open>switch\<close> of the loop body: what one token does to the value. On a map a
  token with the prefix \<^verbatim>\<open>idx:\<close> does nothing, and on an array only such a token whose
  number scans and lies within the array does something. (\<^verbatim>\<open>vv[toRemove] != Marker\<close>
  also holds for a key the map lacks, which the assignment then adds.)\<close>

definition applyRemoval :: "Trimmer \<Rightarrow> string \<Rightarrow> json \<Rightarrow> json" where
  "applyRemoval t toRemove v =
     (case v of
        JObject vv \<Rightarrow>
          (if \<not> HasPrefix toRemove ''idx:'' then
             (if ReplaceWithMarker (cfg t) \<and> map_of vv toRemove \<noteq> Some (JString Marker)
              then JObject (AList.update toRemove (JString Marker) vv)
              else JObject (AList.delete toRemove vv))
           else v)
      | JArray vv \<Rightarrow>
          (if HasPrefix toRemove ''idx:'' then
             (case Sscanf_d (drop 4 toRemove) of
                None \<Rightarrow> v
              | Some idx \<Rightarrow>
                  (if idx \<ge> 0 \<and> idx < int (length vv) then
                     (if ReplaceWithMarker (cfg t) \<and> vv ! nat idx \<noteq> JString Marker
                      then JArray (vv[nat idx := JString Marker])
                      else JArray (take (nat idx) vv @ drop (nat idx + 1) vv))
                   else v))
           else v)
      | _ \<Rightarrow> v)"

text \<open>The loop may run forever, so \<open>None\<close> is "does not return". A \<^verbatim>\<open>nil\<close> strategy
  (a trimmer not made by \<^verbatim>\<open>New\<close>) panics at the call.\<close>

partial_function (option) enforceTotal :: "Trimmer \<Rightarrow> json \<Rightarrow> (error + json) option" where
  "enforceTotal t v =
     (if int (length (marshal v)) \<le> TotalLimit (cfg t) then Some (Inr v)
      else
        (case Strategy (cfg t) of
           None \<Rightarrow> Some (Inl Panic)
         | Some strategy \<Rightarrow>
             (let toRemove = SelectNextToRemove strategy v in
              if toRemove = [] then Some (Inr v)
              else enforceTotal t (applyRemoval t toRemove v))))"

subsection \<open>The pipeline\<close>

text \<open>\<^verbatim>\<open>json.Unmarshal\<close> is a parameter: \<open>Inl\<close> is its error, \<open>Inr\<close> the parsed tree.
  \<open>Inl e\<close> as the result of \<open>Trim\<close> is the return \<^verbatim>\<open>(nil, e)\<close>, \<open>Inr out\<close> the return
  \<^verbatim>\<open>(out, nil)\<close>, and \<open>None\<close> is "does not return".\<close>

definition Trim :: "(string \<Rightarrow> error + json) \<Rightarrow> Trimmer \<Rightarrow> string \<Rightarrow> (error + string) option" where
  "Trim Unmarshal t raw =
     (case Unmarshal raw of
        Inl err \<Rightarrow> Some (Inl err)
      | Inr v0 \<Rightarrow>
          (case PreTrim (Hooks (cfg t)) of
             None \<Rightarrow> Some (Inl Panic)
           | Some pre \<Rightarrow>
               (case enforceTotal t (trimFields t (pre (stripBlacklisted t v0)) 1) of
                  None \<Rightarrow> None
                | Some (Inl err) \<Rightarrow> Some (Inl err)
                | Some (Inr v3) \<Rightarrow>
                    (case PostTrim (Hooks (cfg t)) of
                       None \<Rightarrow> Some (Inl Panic)
                     | Some post \<Rightarrow>
                         (let out = marshal (post v3 None) in
                          if int (length out) > TotalLimit (cfg t) then Some (Inl ErrCannotTrim)
                          else Some (Inr out))))))"

section \<open>Inputs and notions the properties speak about\<close>

text \<open>Go's zero \<^verbatim>\<open>Config{}\<close>, from which the configurations of the scenarios are built.\<close>

definition Config_zero :: Config where
  "Config_zero =
     \<lparr>FieldLimit = 0, TotalLimit = 0, Blacklist = [], Strategy = None, MaxDepth = 0,
      TruncateStrings = False, ReplaceWithMarker = False,
      Hooks = \<lparr>PreTrim = None, PostTrim = None\<rparr>\<rparr>"

text \<open>A byte the serialiser copies as it is.\<close>

definition plain_byte :: "char \<Rightarrow> bool" where
  "plain_byte b = ((of_char b :: nat) < 128 \<and> htmlSafe b)"

text \<open>The scenario of \<^verbatim>\<open>TestTrimBasic\<close>: its configuration, the parsed input and the tree
  the output is the serialisation of.\<close>

definition basic_cfg :: Config where
  "basic_cfg = Config_zero\<lparr>FieldLimit := 500, TotalLimit := 1024, TruncateStrings := True\<rparr>"

definition basic_input :: json where
  "basic_input =
     JObject [(''id'', JString ''123''), (''data'', JString (replicate 2000 CHR ''x''))]"

definition basic_output :: json where
  "basic_output =
     JObject [(''id'', JString ''123''), (''data'', JString (replicate 494 CHR ''x'' @ ''...''))]"

text \<open>An object whose only key starts with \<^verbatim>\<open>idx:\<close>, and a configuration with a total
  limit of 10 bytes and a given strategy.\<close>

definition idx_input :: json where
  "idx_input = JObject [(''idx:0'', JString ''aaaaaaaaaaaaaaaaaaaa'')]"

definition idx_cfg :: "TruncStrategy option \<Rightarrow> Config" where
  "idx_cfg s = Config_zero\<lparr>TotalLimit := 10, Strategy := s\<rparr>"

text \<open>The values that are members of a value, at every nesting level: the entries of
  an object, the elements of an array, and their members.\<close>

fun members :: "json \<Rightarrow> json list" where
  "members (JObject vv) = concat (map (\<lambda>(k, c). c # members c) vv)"
| "members (JArray vv) = concat (map (\<lambda>c. c # members c) vv)"
| "members v = []"

text \<open>What the size check of the container loops guarantees of a member it stores.\<close>

definition within_FieldLimit :: "Trimmer \<Rightarrow> json \<Rightarrow> bool" where
  "within_FieldLimit t c =
     (c = JString Marker \<or> estimateSize c \<le> FieldLimit (cfg t)
      \<or> int (length (marshal c)) \<le> FieldLimit (cfg t))"

text \<open>Inputs of further scenarios: a blacklist that empties an object; an object and an
  array with \<^verbatim>\<open>null\<close> members; a field limit of 10 with a string of ten bytes and with
  a string of eight double quotes; a field limit of 3.\<close>

definition ab_cfg :: Config where
  "ab_cfg = Config_zero\<lparr>Blacklist := [''a.b'']\<rparr>"

definition ab_input :: json where
  "ab_input = JObject [(''a'', JObject [(''b'', JNumber ''1'')])]"

definition null_input :: json where
  "null_input = JObject [(''a'', JNil), (''b'', JArray [JNil, JBool True])]"

definition fl10_cfg :: Config where
  "fl10_cfg = Config_zero\<lparr>FieldLimit := 10\<rparr>"

definition eight_quotes :: string where
  "eight_quotes = [CHR 0x22, CHR 0x22, CHR 0x22, CHR 0x22, CHR 0x22, CHR 0x22, CHR 0x22, CHR 0x22]"

definition quotes_input :: json where
  "quotes_input = JObject [(''q'', JString eight_quotes)]"

definition fl3_cfg :: Config where
  "fl3_cfg = Config_zero\<lparr>FieldLimit := 3\<rparr>"

text \<open>A number of 23 bytes, as the serialiser prints the \<^verbatim>\<open>float64\<close> it stands for.\<close>

definition big_number :: string where
  "big_number = ''1.2345678901234567e+100''"

text \<open>A rule matches a path, in the words of the specification: both have the same
  number of segments, and each segment of the rule is the wildcard or equal to the
  segment of the path at its position.\<close>

definition path_matches_rule :: "string list \<Rightarrow> string list \<Rightarrow> bool" where
  "path_matches_rule path rule =
     (length rule = length path \<and> list_all2 (\<lambda>part seg. part = ''*'' \<or> part = seg) rule path)"

text \<open>The value with the subtree at a path replaced by another value; the segments of
  a path are object keys and array indices in decimal, as the stripper builds them.
  A value that has nothing at the path is left as it is.\<close>

fun replace_at :: "json \<Rightarrow> string list \<Rightarrow> json \<Rightarrow> json" where
  "replace_at v [] w = w"
| "replace_at (JObject vv) (seg # rest) w =
     JObject (map (\<lambda>(k, val). (k, if k = seg then replace_at val rest w else val)) vv)"
| "replace_at (JArray vv) (seg # rest) w =
     JArray (map (\<lambda>(i, item). if Sprintf_d i = seg then replace_at item rest w else item)
               (zip [0 ..< length vv] vv))"
| "replace_at v (seg # rest) w = v"

text \<open>The scenario of the wildcard blacklist.\<close>

definition users_cfg :: Config where
  "users_cfg = Config_zero\<lparr>Blacklist := [''users.*.pass'']\<rparr>"

definition users_input :: json where
  "users_input =
     JObject [(''users'', JArray [JObject [(''id'', JNumber ''1''), (''pass'', JString ''abc'')],
                                  JObject [(''id'', JNumber ''2''), (''pass'', JString ''xyz'')]]),
              (''meta'', JObject [(''pass'', JString ''no-match'')])]"

definition users_output :: json where
  "users_output =
     JObject [(''users'', JArray [JObject [(''id'', JNumber ''1'')],
                                  JObject [(''id'', JNumber ''2'')]]),
              (''meta'', JObject [(''pass'', JString ''no-match'')])]"

text \<open>An element of an array after a stage, against the element before it: the same
  value, or the marker put in its place.\<close>

definition kept_or_marker :: "json \<Rightarrow> json \<Rightarrow> bool" where
  "kept_or_marker out inp = (out = inp \<or> out = JString Marker)"

text \<open>An array of three strings, 24 bytes once serialised.\<close>

definition arr_input :: "json list" where
  "arr_input = [JString ''aaaa'', JString ''bbbbbbbb'', JString ''cc'']"

text \<open>A field limit of 9 with truncation, and a string of five two-byte characters
  (the letter e with an acute accent, in UTF-8).\<close>

definition fl9_cfg :: Config where
  "fl9_cfg = Config_zero\<lparr>FieldLimit := 9, TruncateStrings := True\<rparr>"

definition five_e :: string where
  "five_e = [CHR 0xC3, CHR 0xA9, CHR 0xC3, CHR 0xA9, CHR 0xC3, CHR 0xA9, CHR 0xC3, CHR 0xA9,
             CHR 0xC3, CHR 0xA9]"


text \<open>An entry of an object after total enforcement, against the entries before it: an
  entry of the input, or a marker.\<close>

definition entry_kept_or_marker :: "(string \<times> json) list \<Rightarrow> string \<times> json \<Rightarrow> bool" where
  "entry_kept_or_marker vv e = (snd e = JString Marker \<or> e \<in> set vv)"

text \<open>The strategies the package ships, as opposed to one the caller writes.\<close>

fun builtin :: "TruncStrategy \<Rightarrow> bool" where
  "builtin RemoveLargest = True"
| "builtin FIFO = True"
| "builtin (PrioritizeKeys KeepKeys Fallback) = (case Fallback of None \<Rightarrow> True | Some s \<Rightarrow> builtin s)"
| "builtin (Custom f) = False"

text \<open>What a strategy may answer on a value: nothing, a key of the map, or the token of an
  index of the array.\<close>

definition token_ok :: "json \<Rightarrow> string \<Rightarrow> bool" where
  "token_ok v tok =
     (tok = [] \<or>
      (case v of
         JObject vv \<Rightarrow> tok \<in> fst ` set vv
       | JArray vv \<Rightarrow> (\<exists>i < length vv. tok = ''idx:'' @ Sprintf_d i)
       | _ \<Rightarrow> False))"

text \<open>The number of entries that are not the marker, the quantity that one round of the
  total enforcer lowers, and the values on which every token of a shipped strategy is
  acted upon: a map none of whose keys starts with \<^verbatim>\<open>idx:\<close>, an array whose indices
  fit the 64-bit \<^verbatim>\<open>int\<close> that \<^verbatim>\<open>Sscanf\<close> fills.\<close>

definition unmarked :: "json list \<Rightarrow> nat" where
  "unmarked vv = length (filter (\<lambda>x. x \<noteq> JString Marker) vv)"

definition removal_measure :: "json \<Rightarrow> nat" where
  "removal_measure v =
     (case v of
        JObject vv \<Rightarrow> length vv + unmarked (map snd vv)
      | JArray vv \<Rightarrow> length vv + unmarked vv
      | _ \<Rightarrow> 0)"

definition removable :: "json \<Rightarrow> bool" where
  "removable v =
     (case v of
        JObject vv \<Rightarrow> list_all (\<lambda>(k, val). \<not> HasPrefix k ''idx:'') vv
      | JArray vv \<Rightarrow> length vv \<le> 9223372036854775808
      | _ \<Rightarrow> True)"

section \<open>Auxiliary facts\<close>

lemma appendBytes_plain: "list_all plain_byte s \<Longrightarrow> appendBytes s = s"
  by (induction s) (auto simp: plain_byte_def)

lemma length_appendString_plain:
  "list_all plain_byte s \<Longrightarrow> length (appendString s) = length s + 2"
  by (simp add: appendString_def appendBytes_plain)

lemma plain_replicate: "plain_byte c \<Longrightarrow> list_all plain_byte (replicate n c)"
  by (induction n) auto



subsection \<open>The basic scenario, stage by stage\<close>

lemma basic_fields:
  "FieldLimit (cfg (New basic_cfg)) = 500" "TotalLimit (cfg (New basic_cfg)) = 1024"
  "MaxDepth (cfg (New basic_cfg)) = 10" "TruncateStrings (cfg (New basic_cfg))"
  "\<not> ReplaceWithMarker (cfg (New basic_cfg))" "blacklistParts (New basic_cfg) = []"
  "PreTrim (Hooks (cfg (New basic_cfg))) = Some (\<lambda>v. v)"
  "PostTrim (Hooks (cfg (New basic_cfg))) = Some (\<lambda>v err. v)"
  by (simp_all add: basic_cfg_def New_def Config_zero_def)

lemma basic_trimFields: "trimFields (New basic_cfg) basic_input 1 = basic_output"
  by (simp add: trimFields.simps basic_input_def basic_output_def basic_fields checkFieldSize_def)

lemma plain_x: "plain_byte CHR ''x''"
  by (simp add: plain_byte_def htmlSafe_def)

lemma basic_plain:
  "list_all plain_byte ''id''" "list_all plain_byte ''123''" "list_all plain_byte ''data''"
  "list_all plain_byte (replicate 494 CHR ''x'' @ ''...'')"
  by (simp_all add: plain_replicate plain_x) (simp_all add: plain_byte_def htmlSafe_def)

lemma basic_marshal: "length (marshal basic_output) = 519"
  using basic_plain [THEN length_appendString_plain]
  by (simp add: basic_output_def sort_by_key_def)

lemma basic_enforceTotal: "enforceTotal (New basic_cfg) basic_output = Some (Inr basic_output)"
  by (subst enforceTotal.simps) (simp only: basic_marshal basic_fields, simp)

lemma basic_strip: "stripBlacklisted (New basic_cfg) v = v"
  by (simp add: stripBlacklisted_def basic_fields)

lemma basic_Trim:
  "Trim (\<lambda>raw. Inr basic_input) (New basic_cfg) raw = Some (Inr (marshal basic_output))"
  unfolding Trim_def
  by (simp only: sum.case basic_fields option.case basic_strip basic_trimFields
        basic_enforceTotal Let_def basic_marshal, simp)

subsection \<open>A loop that makes no progress\<close>

text \<open>When the value is over the limit, the strategy names a token and the token leaves
  the value as it is, the next iteration is in the same state: the loop does not return.\<close>

lemma enforceTotal_stuck:
  assumes big: "TotalLimit (cfg t) < int (length (marshal v))"
    and s: "Strategy (cfg t) = Some strategy"
    and tok: "SelectNextToRemove strategy v \<noteq> []"
    and same: "applyRemoval t (SelectNextToRemove strategy v) v = v"
  shows "enforceTotal t v = None"
proof (rule ccontr)
  assume "enforceTotal t v \<noteq> None"
  then obtain r where r: "enforceTotal t v = Some r"
    by auto
  have "\<not> (t' = t \<and> v' = v)" if a: "enforceTotal t' v' = Some r'" for t' v' r'
    by (rule enforceTotal.raw_induct [where P = "\<lambda>a b c. \<not> (a = t \<and> b = v)", OF _ a])
       (use big s tok same in \<open>fastforce simp: Let_def\<close>)
  with r show False
    by blast
qed

lemma idx_marshal: "length (marshal idx_input) = 32"
  by (simp add: idx_input_def sort_by_key_def appendString_def htmlSafe_def)

lemma idx_fields:
  "TotalLimit (cfg (New (idx_cfg s))) = 10" "FieldLimit (cfg (New (idx_cfg s))) = 500"
  "MaxDepth (cfg (New (idx_cfg s))) = 10" "\<not> ReplaceWithMarker (cfg (New (idx_cfg s)))"
  "blacklistParts (New (idx_cfg s)) = []"
  "Strategy (cfg (New (idx_cfg s))) = Some (case s of None \<Rightarrow> RemoveLargest | Some x \<Rightarrow> x)"
  "PreTrim (Hooks (cfg (New (idx_cfg s)))) = Some (\<lambda>v. v)"
  by (simp_all add: idx_cfg_def New_def Config_zero_def split: option.splits)

lemma idx_select:
  "SelectNextToRemove RemoveLargest idx_input = ''idx:0''"
  "SelectNextToRemove FIFO idx_input = ''idx:0''"
  "SelectNextToRemove (PrioritizeKeys [''id''] None) idx_input = ''idx:0''"
  by (simp_all add: idx_input_def)

lemma idx_applyRemoval: "applyRemoval t ''idx:0'' idx_input = idx_input"
  by (simp add: applyRemoval_def idx_input_def HasPrefix_def)

lemma idx_enforceTotal:
  assumes "s \<in> {None, Some RemoveLargest, Some FIFO, Some (PrioritizeKeys [''id''] None)}"
  shows "enforceTotal (New (idx_cfg s)) idx_input = None"
proof (rule enforceTotal_stuck)
  show "TotalLimit (cfg (New (idx_cfg s))) < int (length (marshal idx_input))"
    by (simp add: idx_marshal idx_fields)
  show "Strategy (cfg (New (idx_cfg s))) = Some (case s of None \<Rightarrow> RemoveLargest | Some x \<Rightarrow> x)"
    by (rule idx_fields)
  show "SelectNextToRemove (case s of None \<Rightarrow> RemoveLargest | Some x \<Rightarrow> x) idx_input \<noteq> []"
    using assms idx_select by auto
  show "applyRemoval (New (idx_cfg s))
          (SelectNextToRemove (case s of None \<Rightarrow> RemoveLargest | Some x \<Rightarrow> x) idx_input)
          idx_input
        = idx_input"
    using assms idx_select idx_applyRemoval by auto
qed

lemma idx_trimFields: "trimFields (New (idx_cfg s)) idx_input 1 = idx_input"
  by (simp add: trimFields.simps idx_input_def idx_fields checkFieldSize_def)

subsection \<open>The field trimmer, case by case\<close>

lemma trimFields_beyond:
  "MaxDepth (cfg t) < depth \<Longrightarrow>
   trimFields t v depth = (if ReplaceWithMarker (cfg t) then JString Marker else JNil)"
  by (simp add: trimFields.simps)

lemma trimFields_scalar:
  "depth \<le> MaxDepth (cfg t) \<Longrightarrow> trimFields t JNil depth = JNil"
  "depth \<le> MaxDepth (cfg t) \<Longrightarrow> trimFields t (JBool b) depth = JBool b"
  "depth \<le> MaxDepth (cfg t) \<Longrightarrow> trimFields t (JNumber n) depth = JNumber n"
  by (simp_all add: trimFields.simps)

lemma trimFields_object:
  "depth \<le> MaxDepth (cfg t) \<Longrightarrow>
   trimFields t (JObject vv) depth =
     JObject (concat (map (\<lambda>(k, val).
        (case checkFieldSize t (trimFields t val (depth + 1)) of
           None \<Rightarrow> [] | Some kept \<Rightarrow> [(k, kept)])) vv))"
  by (simp add: trimFields.simps)

lemma trimFields_array:
  "depth \<le> MaxDepth (cfg t) \<Longrightarrow>
   trimFields t (JArray vv) depth =
     JArray (concat (map (\<lambda>item.
        (case checkFieldSize t (trimFields t item (depth + 1)) of
           None \<Rightarrow> [] | Some kept \<Rightarrow> [kept])) vv))"
  by (simp add: trimFields.simps)

lemma trimFields_JString_result:
  assumes "trimFields t v depth = JString s"
  shows "s = Marker \<or> int (length s) \<le> FieldLimit (cfg t)"
proof (cases "depth \<le> MaxDepth (cfg t)")
  case False
  with assms show ?thesis
    by (simp add: trimFields_beyond split: if_splits)
next
  case True
  with assms show ?thesis
    by (cases v) (auto simp: trimFields.simps Let_def split: if_splits)
qed

lemma checkFieldSize_within:
  "c \<noteq> JNil \<Longrightarrow> int (length (marshal c)) \<le> FieldLimit (cfg t) \<Longrightarrow> checkFieldSize t c = Some c"
  by (simp add: checkFieldSize_def)

lemma checkFieldSize_Some:
  "checkFieldSize t x = Some y \<Longrightarrow> within_FieldLimit t y \<and> (y = JString Marker \<or> y = x)"
  by (auto simp: checkFieldSize_def within_FieldLimit_def split: if_splits)

lemma kept_entry:
  "(k, kept) \<in> set (concat (map (\<lambda>(k, val).
        (case g val of None \<Rightarrow> [] | Some kept \<Rightarrow> [(k, kept)])) vv))
   \<Longrightarrow> \<exists>val. (k, val) \<in> set vv \<and> g val = Some kept"
  by (induction vv) (auto split: option.splits)

lemma kept_item:
  "kept \<in> set (concat (map (\<lambda>item.
        (case g item of None \<Rightarrow> [] | Some kept \<Rightarrow> [kept])) vv))
   \<Longrightarrow> \<exists>item. item \<in> set vv \<and> g item = Some kept"
  by (induction vv) (auto split: option.splits)

lemma members_JObject:
  "c \<in> set (members (JObject out))
   \<Longrightarrow> \<exists>k c'. (k, c') \<in> set out \<and> (c = c' \<or> c \<in> set (members c'))"
  by auto

lemma members_JArray:
  "c \<in> set (members (JArray out))
   \<Longrightarrow> \<exists>c'. c' \<in> set out \<and> (c = c' \<or> c \<in> set (members c'))"
  by auto

lemma members_trimFields:
  "c \<in> set (members (trimFields t v depth)) \<Longrightarrow> within_FieldLimit t c"
proof (induction v arbitrary: depth c)
  case (JObject kvs)
  show ?case
  proof (cases "depth \<le> MaxDepth (cfg t)")
    case False
    with JObject.prems show ?thesis
      by (simp add: trimFields_beyond split: if_splits)
  next
    case True
    from JObject.prems obtain k kept
      where out: "(k, kept) \<in> set (concat (map (\<lambda>(k, val).
                    (case checkFieldSize t (trimFields t val (depth + 1)) of
                       None \<Rightarrow> [] | Some kept \<Rightarrow> [(k, kept)])) kvs))"
        and c: "c = kept \<or> c \<in> set (members kept)"
      unfolding trimFields_object [OF True] by (blast dest: members_JObject)
    from kept_entry [of k kept "\<lambda>val. checkFieldSize t (trimFields t val (depth + 1))", OF out]
    obtain val where kv: "(k, val) \<in> set kvs"
      and ch: "checkFieldSize t (trimFields t val (depth + 1)) = Some kept"
      by blast
    from checkFieldSize_Some [OF ch]
    have w: "within_FieldLimit t kept"
      and k: "kept = JString Marker \<or> kept = trimFields t val (depth + 1)"
      by simp_all
    from c show ?thesis
    proof
      assume "c = kept"
      with w show ?thesis by simp
    next
      assume m: "c \<in> set (members kept)"
      with k have "c \<in> set (members (trimFields t val (depth + 1)))"
        by auto
      moreover have "val \<in> Basic_BNFs.snds (k, val)"
        by simp
      ultimately show ?thesis
        using JObject.IH [OF kv] by blast
    qed
  qed
next
  case (JArray xs)
  show ?case
  proof (cases "depth \<le> MaxDepth (cfg t)")
    case False
    with JArray.prems show ?thesis
      by (simp add: trimFields_beyond split: if_splits)
  next
    case True
    from JArray.prems obtain kept
      where out: "kept \<in> set (concat (map (\<lambda>item.
                    (case checkFieldSize t (trimFields t item (depth + 1)) of
                       None \<Rightarrow> [] | Some kept \<Rightarrow> [kept])) xs))"
        and c: "c = kept \<or> c \<in> set (members kept)"
      unfolding trimFields_array [OF True] by (blast dest: members_JArray)
    from kept_item [of kept "\<lambda>item. checkFieldSize t (trimFields t item (depth + 1))", OF out]
    obtain item where kv: "item \<in> set xs"
      and ch: "checkFieldSize t (trimFields t item (depth + 1)) = Some kept"
      by blast
    from checkFieldSize_Some [OF ch]
    have w: "within_FieldLimit t kept"
      and k: "kept = JString Marker \<or> kept = trimFields t item (depth + 1)"
      by simp_all
    from c show ?thesis
    proof
      assume "c = kept"
      with w show ?thesis by simp
    next
      assume m: "c \<in> set (members kept)"
      with k have "c \<in> set (members (trimFields t item (depth + 1)))"
        by auto
      then show ?thesis
        using JArray.IH [OF kv] by blast
    qed
  qed
next
  case JNil
  then show ?case by (simp add: trimFields.simps split: if_splits)
next
  case (JBool b)
  then show ?case by (simp add: trimFields.simps split: if_splits)
next
  case (JNumber n)
  then show ?case by (simp add: trimFields.simps split: if_splits)
next
  case (JString s)
  then show ?case by (simp add: trimFields.simps Let_def split: if_splits)
qed

subsection \<open>The serialised length of a string\<close>

lemma length_appendBytes: "length s \<le> length (appendBytes s)"
proof (induction "length s" arbitrary: s rule: less_induct)
  case less
  show ?case
  proof (cases s)
    case Nil
    then show ?thesis by simp
  next
    case (Cons b bs)
    have IH: "length (drop n bs) \<le> length (appendBytes (drop n bs))" for n
      using less [of "drop n bs"] Cons by simp
    from IH [of 0] have IH0: "length bs \<le> length (appendBytes bs)"
      by simp
    show ?thesis
    proof (cases "(of_char b :: nat) < 128")
      case True
      with IH0 Cons show ?thesis
        by (simp add: escape_byte_def)
    next
      case False
      define sz where "sz = utf8_size (map of_char (take 4 (b # bs)))"
      have eq: "appendBytes (b # bs) =
          (if sz = 0 then (CHR 0x5C # ''ufffd'') @ appendBytes bs
           else if take 3 (b # bs) = [CHR 0xE2, CHR 0x80, CHR 0xA8] then
             (CHR 0x5C # ''u2028'') @ appendBytes (drop 2 bs)
           else if take 3 (b # bs) = [CHR 0xE2, CHR 0x80, CHR 0xA9] then
             (CHR 0x5C # ''u2029'') @ appendBytes (drop 2 bs)
           else take sz (b # bs) @ appendBytes (drop (sz - 1) bs))"
        using False by (simp only: appendBytes.simps sz_def Let_def if_False)
      have gen: "length (b # bs) \<le> length (take sz (b # bs) @ appendBytes (drop (sz - 1) bs))"
        if "sz \<noteq> 0"
        using IH [of "sz - 1"] that by (auto simp: min_def)
      have "length (b # bs) \<le> length (appendBytes (b # bs))"
        unfolding eq using IH0 IH [of 2] gen
        by (simp only: split: if_split) (simp, linarith)
      with Cons show ?thesis
        by simp
    qed
  qed
qed

lemma length_marshal_JString: "int (length s) + 2 \<le> int (length (marshal (JString s)))"
  using length_appendBytes [of s] by (simp add: appendString_def)

lemma length_marshal_plain:
  "list_all plain_byte s \<Longrightarrow> int (length (marshal (JString s))) = int (length s) + 2"
  by (simp add: length_appendString_plain)

subsection \<open>Further scenarios, stage by stage\<close>

lemma zero_fields:
  "FieldLimit (cfg (New Config_zero)) = 500" "TotalLimit (cfg (New Config_zero)) = 1024"
  "MaxDepth (cfg (New Config_zero)) = 10" "\<not> ReplaceWithMarker (cfg (New Config_zero))"
  "\<not> TruncateStrings (cfg (New Config_zero))" "blacklistParts (New Config_zero) = []"
  by (simp_all add: New_def Config_zero_def)

lemma null_trimFields:
  "trimFields (New Config_zero) null_input 1 = JObject [(''b'', JArray [JBool True])]"
  by (simp add: trimFields.simps null_input_def zero_fields checkFieldSize_def)

lemma fl3_fields:
  "FieldLimit (cfg (New fl3_cfg)) = 3" "MaxDepth (cfg (New fl3_cfg)) = 10"
  "\<not> ReplaceWithMarker (cfg (New fl3_cfg))"
  by (simp_all add: New_def fl3_cfg_def Config_zero_def)

lemma fl3_trimFields:
  "trimFields (New fl3_cfg) (JObject [(''a'', JBool True)]) 1 = JObject []"
  by (simp add: trimFields.simps fl3_fields checkFieldSize_def)

lemma ab_fields:
  "blacklistParts (New ab_cfg) = [[''a'', ''b'']]" "\<not> ReplaceWithMarker (cfg (New ab_cfg))"
  "FieldLimit (cfg (New ab_cfg)) = 500" "TotalLimit (cfg (New ab_cfg)) = 1024"
  "MaxDepth (cfg (New ab_cfg)) = 10"
  "PreTrim (Hooks (cfg (New ab_cfg))) = Some (\<lambda>v. v)"
  "PostTrim (Hooks (cfg (New ab_cfg))) = Some (\<lambda>v err. v)"
  by (simp_all add: ab_cfg_def New_def Config_zero_def)

lemma ab_strip: "stripBlacklisted (New ab_cfg) ab_input = JObject [(''a'', JObject [])]"
  by (simp add: stripBlacklisted_def ab_input_def stripRecursive.simps matchesBlacklist_def
        ab_fields)

lemma ab_trimFields:
  "trimFields (New ab_cfg) (JObject [(''a'', JObject [])]) 1 = JObject [(''a'', JObject [])]"
  by (simp add: trimFields.simps ab_fields checkFieldSize_def)

lemma ab_marshal: "length (marshal (JObject [(''a'', JObject [])])) = 8"
  by (simp add: sort_by_key_def appendString_def htmlSafe_def)

lemma ab_enforceTotal:
  "enforceTotal (New ab_cfg) (JObject [(''a'', JObject [])])
   = Some (Inr (JObject [(''a'', JObject [])]))"
  by (subst enforceTotal.simps) (simp only: ab_marshal ab_fields, simp)

lemma ab_Trim:
  "Trim (\<lambda>raw. Inr ab_input) (New ab_cfg) raw
   = Some (Inr (marshal (JObject [(''a'', JObject [])])))"
  unfolding Trim_def
  by (simp only: sum.case ab_fields option.case ab_strip ab_trimFields
        ab_enforceTotal Let_def ab_marshal, simp)

lemma fl10_fields:
  "FieldLimit (cfg (New fl10_cfg)) = 10" "TotalLimit (cfg (New fl10_cfg)) = 1024"
  "MaxDepth (cfg (New fl10_cfg)) = 10" "\<not> ReplaceWithMarker (cfg (New fl10_cfg))"
  "\<not> TruncateStrings (cfg (New fl10_cfg))" "blacklistParts (New fl10_cfg) = []"
  "PreTrim (Hooks (cfg (New fl10_cfg))) = Some (\<lambda>v. v)"
  "PostTrim (Hooks (cfg (New fl10_cfg))) = Some (\<lambda>v err. v)"
  by (simp_all add: fl10_cfg_def New_def Config_zero_def)

lemma ten_marshal: "length (marshal (JString ''aaaaaaaaaa'')) = 12"
  by (simp add: appendString_def htmlSafe_def)

lemma ten_trimFields:
  "trimFields (New fl10_cfg) (JString ''aaaaaaaaaa'') 1 = JString ''aaaaaaaaaa''"
  by (simp add: trimFields.simps fl10_fields)

lemma ten_enforceTotal:
  "enforceTotal (New fl10_cfg) (JString ''aaaaaaaaaa'') = Some (Inr (JString ''aaaaaaaaaa''))"
  by (subst enforceTotal.simps) (simp only: ten_marshal fl10_fields, simp)

lemma fl10_strip: "stripBlacklisted (New fl10_cfg) v = v"
  by (simp add: stripBlacklisted_def fl10_fields)

lemma fl10_number:
  "trimFields (New fl10_cfg) (JArray [JNil]) 1 = JArray []"
  "trimFields (New fl10_cfg) (JArray [JBool True]) 1 = JArray [JBool True]"
  "trimFields (New fl10_cfg) (JObject [(''n'', JNil)]) 1 = JObject []"
  "trimFields (New fl10_cfg) (JObject [(''t'', JBool True)]) 1 = JObject [(''t'', JBool True)]"
  by (simp_all add: trimFields.simps fl10_fields checkFieldSize_def)

lemma fl3_number:
  "trimFields (New fl3_cfg) (JArray []) 1 = JArray []"
  "trimFields (New fl3_cfg) (JArray [JNumber ''7'']) 1 = JArray [JNumber ''7'']"
  "trimFields (New fl3_cfg) (JObject []) 1 = JObject []"
  by (simp_all add: trimFields.simps fl3_fields checkFieldSize_def)

lemma checkFieldSize_scalar:
  assumes "c = JBool b \<or> c = JNumber n"
  shows "(case checkFieldSize t c of None \<Rightarrow> [] | Some kept \<Rightarrow> [kept]) =
     (if estimateSize c \<le> FieldLimit (cfg t) \<or> int (length (marshal c)) \<le> FieldLimit (cfg t)
      then [c]
      else if ReplaceWithMarker (cfg t) then [JString Marker] else [])"
  using assms by (auto simp: checkFieldSize_def)

lemma ten_Trim:
  "Trim (\<lambda>raw. Inr (JString ''aaaaaaaaaa'')) (New fl10_cfg) raw
   = Some (Inr (marshal (JString ''aaaaaaaaaa'')))"
  unfolding Trim_def
  by (simp only: sum.case fl10_fields option.case fl10_strip ten_trimFields
        ten_enforceTotal Let_def ten_marshal, simp)

lemma quotes_marshal: "length eight_quotes = 8" "length (marshal (JString eight_quotes)) = 18"
  by (simp_all add: eight_quotes_def appendString_def htmlSafe_def escape_byte_def)

lemma quotes_trimFields: "trimFields (New fl10_cfg) quotes_input 1 = quotes_input"
  by (simp add: trimFields.simps quotes_input_def fl10_fields checkFieldSize_def quotes_marshal)

lemma stripRecursive_no_empty_array: "stripRecursive t v p \<noteq> JArray []"
  by (cases v) (auto simp: stripRecursive.simps Let_def)

lemma w_trimFields:
  "trimFields (New fl10_cfg)
     (JObject [(''k'', JString ''abcdefgh''), (''long'', JString ''abcdefghijk'')]) 1
   = JObject [(''k'', JString ''abcdefgh'')]"
  by (simp add: trimFields.simps fl10_fields checkFieldSize_def)

subsection \<open>The blacklist stripper\<close>

lemma rule_matches_iff:
  "length rule = length path \<Longrightarrow>
   rule_matches rule path = list_all2 (\<lambda>part seg. part = ''*'' \<or> part = seg) rule path"
  by (induction rule path rule: list_induct2) auto

lemma matchesBlacklist_iff:
  "matchesBlacklist t path =
     (path \<noteq> [] \<and> (\<exists>rule \<in> set (blacklistParts t). path_matches_rule path rule))"
  by (auto simp: matchesBlacklist_def path_matches_rule_def list_ex_iff rule_matches_iff)

lemma stripRecursive_matched:
  "matchesBlacklist t path \<Longrightarrow>
   stripRecursive t v path = (if ReplaceWithMarker (cfg t) then JString Marker else JNil)"
  by (simp add: stripRecursive.simps)

lemma zip_map_zip:
  "length xs = length ys \<Longrightarrow>
   zip xs (map f (zip xs ys)) = map (\<lambda>(i, y). (i, f (i, y))) (zip xs ys)"
  by (induction xs ys rule: list_induct2) auto

lemma stripRecursive_replace_at:
  "matchesBlacklist t (cp @ p) \<Longrightarrow>
   stripRecursive t (replace_at v p w) cp = stripRecursive t v cp"
proof (induction p arbitrary: v cp)
  case Nil
  then show ?case
    by (simp add: stripRecursive_matched)
next
  case (Cons seg rest)
  have IH: "stripRecursive t (replace_at x rest w) (cp @ [seg]) = stripRecursive t x (cp @ [seg])"
    for x
    using Cons.IH [of "cp @ [seg]" x] Cons.prems by simp
  show ?case
  proof (cases "matchesBlacklist t cp")
    case True
    then show ?thesis
      by (simp add: stripRecursive_matched)
  next
    case False
    show ?thesis
    proof (cases v)
      case (JObject vv)
      have L: "stripRecursive t (JObject xs) cp =
          JObject (filter (\<lambda>(k, stripped). stripped \<noteq> JNil)
                     (map (\<lambda>(k, val). (k, stripRecursive t val (cp @ [k]))) xs))" for xs
        using False by (simp add: stripRecursive.simps)
      have eq: "map (\<lambda>(k, val). (k, stripRecursive t val (cp @ [k])))
              (map (\<lambda>(k, val). (k, if k = seg then replace_at val rest w else val)) vv)
            = map (\<lambda>(k, val). (k, stripRecursive t val (cp @ [k]))) vv"
        by (induction vv) (auto simp: IH)
      show ?thesis
        unfolding JObject replace_at.simps L eq ..
    next
      case (JArray vv)
      have L: "stripRecursive t (JArray xs) cp =
          (let out = filter (\<lambda>stripped. stripped \<noteq> JNil)
                       (map (\<lambda>(i, item). stripRecursive t item (cp @ [Sprintf_d i]))
                            (zip [0 ..< length xs] xs))
           in if length out = 0 then JNil else JArray out)" for xs
        using False by (simp add: stripRecursive.simps)
      have len: "length (map (\<lambda>(i, item). if Sprintf_d i = seg then replace_at item rest w else item)
                    (zip [0 ..< length vv] vv)) = length vv"
        by simp
      have eq: "map (\<lambda>(i, item). stripRecursive t item (cp @ [Sprintf_d i]))
              (zip [0 ..< length vv]
                 (map (\<lambda>(i, item). if Sprintf_d i = seg then replace_at item rest w else item)
                    (zip [0 ..< length vv] vv)))
            = map (\<lambda>(i, item). stripRecursive t item (cp @ [Sprintf_d i]))
                (zip [0 ..< length vv] vv)"
        by (auto simp: zip_map_zip IH)
      show ?thesis
        unfolding JArray replace_at.simps L len eq ..
    qed (simp_all add: stripRecursive.simps)
  qed
qed

lemma stripBlacklisted_replace_at:
  assumes "matchesBlacklist t p"
  shows "stripBlacklisted t (replace_at v p w) = stripBlacklisted t v"
proof -
  from assms have "blacklistParts t \<noteq> []"
    by (auto simp: matchesBlacklist_def split: if_splits)
  with assms show ?thesis
    using stripRecursive_replace_at [of t "[]" p v w] by (simp add: stripBlacklisted_def)
qed

lemma Trim_replace_at:
  assumes "matchesBlacklist t p" and "Unmarshal raw = Inr v"
    and "Unmarshal' raw' = Inr (replace_at v p w)"
  shows "Trim Unmarshal' t raw' = Trim Unmarshal t raw"
  by (simp add: Trim_def assms(2,3) stripBlacklisted_replace_at [OF assms(1)]
        cong: option.case_cong)

lemma users_fields:
  "blacklistParts (New users_cfg) = [[''users'', ''*'', ''pass'']]"
  "\<not> ReplaceWithMarker (cfg (New users_cfg))"
  "FieldLimit (cfg (New users_cfg)) = 500" "TotalLimit (cfg (New users_cfg)) = 1024"
  "MaxDepth (cfg (New users_cfg)) = 10"
  "PreTrim (Hooks (cfg (New users_cfg))) = Some (\<lambda>v. v)"
  "PostTrim (Hooks (cfg (New users_cfg))) = Some (\<lambda>v err. v)"
  by (simp_all add: users_cfg_def New_def Config_zero_def)

lemma users_strip: "stripBlacklisted (New users_cfg) users_input = users_output"
  by (simp add: stripBlacklisted_def users_input_def users_output_def stripRecursive.simps
        matchesBlacklist_def users_fields)

lemma users_trimFields: "trimFields (New users_cfg) users_output 1 = users_output"
  by (simp add: trimFields.simps users_output_def users_fields checkFieldSize_def)

lemma users_marshal: "length (marshal users_output) = 56"
  by (simp add: users_output_def sort_by_key_def appendString_def htmlSafe_def)

lemma users_enforceTotal: "enforceTotal (New users_cfg) users_output = Some (Inr users_output)"
  by (subst enforceTotal.simps) (simp only: users_marshal users_fields, simp)

lemma users_Trim:
  "Trim (\<lambda>raw. Inr users_input) (New users_cfg) raw = Some (Inr (marshal users_output))"
  unfolding Trim_def
  by (simp only: sum.case users_fields option.case users_strip users_trimFields
        users_enforceTotal Let_def users_marshal, simp)

subsection \<open>Arrays keep their order\<close>

lemma list_all2_list_emb: "list_all2 R xs ys \<Longrightarrow> list_emb R xs ys"
  by (induction rule: list_all2_induct) auto

lemma list_emb_kept_refl: "list_emb kept_or_marker vv vv"
  by (rule list_emb_refl) (simp add: kept_or_marker_def)

lemma list_emb_marked: "list_emb kept_or_marker (vv[i := JString Marker]) vv"
proof (rule list_all2_list_emb)
  show "list_all2 kept_or_marker (vv[i := JString Marker]) vv"
    by (simp add: list_all2_conv_all_nth kept_or_marker_def)
       (metis nth_list_update_eq nth_list_update_neq)
qed

lemma list_emb_removed: "list_emb kept_or_marker (take i vv @ drop (Suc i) vv) vv"
proof (cases "i < length vv")
  case True
  have "list_emb kept_or_marker (take i vv @ drop (Suc i) vv)
          (take i vv @ vv ! i # drop (Suc i) vv)"
    by (intro list_emb_append_mono list_emb_Cons list_emb_kept_refl)
  with True show ?thesis
    by (simp add: id_take_nth_drop [symmetric])
next
  case False
  then show ?thesis
    by (simp add: list_emb_kept_refl)
qed

lemma applyRemoval_array:
  "\<exists>out. applyRemoval t tok (JArray vv) = JArray out \<and> list_emb kept_or_marker out vv"
  by (auto simp: applyRemoval_def list_emb_kept_refl list_emb_marked list_emb_removed
        split: option.splits)

lemma applyRemoval_shift:
  assumes "HasPrefix tok ''idx:''" and "Sscanf_d (drop 4 tok) = Some (int i)"
    and "i < length vv" and "ReplaceWithMarker (cfg t) \<longrightarrow> vv ! i = JString Marker"
  shows "applyRemoval t tok (JArray vv) = JArray (take i vv @ drop (Suc i) vv)"
  using assms by (auto simp: applyRemoval_def)

lemma kept_or_marker_trans:
  "kept_or_marker x y \<Longrightarrow> kept_or_marker y z \<Longrightarrow> kept_or_marker x z"
  by (auto simp: kept_or_marker_def)

lemma list_emb_kept_trans:
  assumes "list_emb kept_or_marker xs ys" and "list_emb kept_or_marker ys zs"
  shows "list_emb kept_or_marker xs zs"
  by (rule list_emb_trans [OF _ assms]) (rule kept_or_marker_trans)

lemma enforceTotal_step:
  assumes "(if int (length (marshal v)) \<le> TotalLimit (cfg t) then Some (Inr v)
        else case Strategy (cfg t) of
          None \<Rightarrow> Some (Inl Panic)
        | Some strategy \<Rightarrow>
            (let toRemove = SelectNextToRemove strategy v in
             if toRemove = [] then Some (Inr v)
             else f t (applyRemoval t toRemove v))) = Some (Inr r)"
  shows "r = v \<or> (\<exists>tok. f t (applyRemoval t tok v) = Some (Inr r))"
proof (cases "int (length (marshal v)) \<le> TotalLimit (cfg t)")
  case True
  with assms show ?thesis by simp
next
  case False
  note big = this
  show ?thesis
  proof (cases "Strategy (cfg t)")
    case None
    with assms big show ?thesis by simp
  next
    case (Some strategy)
    show ?thesis
    proof (cases "SelectNextToRemove strategy v = []")
      case True
      with assms big Some show ?thesis by simp
    next
      case False
      with assms big Some
      have "f t (applyRemoval t (SelectNextToRemove strategy v) v) = Some (Inr r)"
        by (simp add: Let_def)
      then show ?thesis by blast
    qed
  qed
qed

lemma enforceTotal_array:
  assumes "enforceTotal t (JArray vv) = Some (Inr r)"
  shows "\<exists>out. r = JArray out \<and> list_emb kept_or_marker out vv"
proof -
  have "\<forall>vv r. v = JArray vv \<longrightarrow> res = Inr r \<longrightarrow>
          (\<exists>out. r = JArray out \<and> list_emb kept_or_marker out vv)"
    if a: "enforceTotal t' v = Some res" for t' v res
  proof (rule enforceTotal.raw_induct
      [where P = "\<lambda>t' v res. \<forall>vv r. v = JArray vv \<longrightarrow> res = Inr r \<longrightarrow>
          (\<exists>out. r = JArray out \<and> list_emb kept_or_marker out vv)", OF _ a])
    fix f :: "Trimmer \<Rightarrow> json \<Rightarrow> (error + json) option" and t v res
    assume IH: "\<And>t v res. f t v = Some res \<Longrightarrow> \<forall>vv r. v = JArray vv \<longrightarrow> res = Inr r \<longrightarrow>
          (\<exists>out. r = JArray out \<and> list_emb kept_or_marker out vv)"
      and step: "(if int (length (marshal v)) \<le> TotalLimit (cfg t) then Some (Inr v)
        else case Strategy (cfg t) of
          None \<Rightarrow> Some (Inl Panic)
        | Some strategy \<Rightarrow>
            (let toRemove = SelectNextToRemove strategy v in
             if toRemove = [] then Some (Inr v)
             else f t (applyRemoval t toRemove v))) = Some res"
    show "\<forall>vv r. v = JArray vv \<longrightarrow> res = Inr r \<longrightarrow>
          (\<exists>out. r = JArray out \<and> list_emb kept_or_marker out vv)"
    proof (intro allI impI)
      fix vv r
      assume v: "v = JArray vv" and res: "res = Inr r"
      from enforceTotal_step [of v t f r, OF step [unfolded res]]
      consider (stop) "r = v" | (go) tok where "f t (applyRemoval t tok v) = Some (Inr r)"
        by blast
      then show "\<exists>out. r = JArray out \<and> list_emb kept_or_marker out vv"
      proof cases
        case stop
        with v show ?thesis
          by (simp add: list_emb_kept_refl)
      next
        case go
        from applyRemoval_array [of t tok vv] obtain mid
          where mid: "applyRemoval t tok (JArray vv) = JArray mid"
            and emb: "list_emb kept_or_marker mid vv"
          by blast
        from IH [OF go] v mid obtain out
          where r: "r = JArray out" and "list_emb kept_or_marker out mid"
          by auto
        with emb have "list_emb kept_or_marker out vv"
          by (blast intro: list_emb_kept_trans)
        with r show ?thesis
          by blast
      qed
    qed
  qed
  with assms show ?thesis
    by blast
qed

lemma list_emb_filter_map_zip:
  assumes "length ns = length vv" and "\<And>n x. R (g (n, x)) x"
  shows "list_emb R (filter Q (map g (zip ns vv))) vv"
  using assms by (induction ns vv rule: list_induct2) auto

lemma stripRecursive_array_order:
  assumes "stripRecursive t (JArray vv) p = JArray out"
  shows "list_emb (\<lambda>out inp. \<exists>q. out = stripRecursive t inp q) out vv"
proof -
  from assms have nm: "\<not> matchesBlacklist t p"
    by (auto simp: stripRecursive.simps [of t _ p] split: if_splits)
  with assms have "out = filter (\<lambda>stripped. stripped \<noteq> JNil)
      (map (\<lambda>(i, item). stripRecursive t item (p @ [Sprintf_d i])) (zip [0 ..< length vv] vv))"
    by (simp add: stripRecursive.simps [of t _ p] Let_def split: if_splits)
  then show ?thesis
    by (auto intro!: list_emb_filter_map_zip)
qed

lemma list_emb_concat_option:
  assumes "\<And>x y. h x = Some y \<Longrightarrow> R y x"
  shows "list_emb R (concat (map (\<lambda>x. case h x of None \<Rightarrow> [] | Some y \<Rightarrow> [y]) vv)) vv"
  using assms by (induction vv) (auto split: option.splits)

lemma trimFields_array_order:
  assumes "trimFields t (JArray vv) depth = JArray out"
  shows "list_emb (\<lambda>out inp. out = trimFields t inp (depth + 1) \<or> out = JString Marker) out vv"
proof -
  from assms have le: "depth \<le> MaxDepth (cfg t)"
    by (auto simp: trimFields.simps [of t _ depth] split: if_splits)
  have "list_emb (\<lambda>out inp. out = trimFields t inp (depth + 1) \<or> out = JString Marker)
      (concat (map (\<lambda>item.
        (case checkFieldSize t (trimFields t item (depth + 1)) of
           None \<Rightarrow> [] | Some kept \<Rightarrow> [kept])) vv)) vv"
    by (rule list_emb_concat_option) (auto dest: checkFieldSize_Some)
  with assms le show ?thesis
    by (simp add: trimFields_array)
qed

lemma arr_marshal:
  "length (marshal (JArray arr_input)) = 24"
  "length (marshal (JArray [JString ''aaaa'', JString ''cc''])) = 13"
  "length (marshal (JArray [JString ''cc''])) = 6"
  by (simp_all add: arr_input_def appendString_def htmlSafe_def)

lemma arr_select:
  "SelectNextToRemove RemoveLargest (JArray arr_input) = ''idx:1''"
  "SelectNextToRemove RemoveLargest (JArray [JString ''aaaa'', JString ''cc'']) = ''idx:0''"
  by (simp_all add: arr_input_def)

lemma arr_scan: "Sscanf_d ''1'' = Some 1" "Sscanf_d ''0'' = Some 0"
  by (simp_all add: Sscanf_d_def is_blank_def is_digit_def)

lemma Sscanf_d_space:
  "Sscanf_d ([CHR 0xC2, CHR 0xA0] @ ''1'') = Some 1"
  "Sscanf_d ([CHR 0xE3, CHR 0x80, CHR 0x80] @ '' +1x'') = Some 1"
  "Sscanf_d [CHR 0x0A, CHR ''1''] = None"
  by (simp_all add: Sscanf_d_def is_blank_def space2_def space3_def is_digit_def)

lemma arr_applyRemoval:
  "applyRemoval (New (idx_cfg None)) ''idx:1'' (JArray arr_input)
   = JArray [JString ''aaaa'', JString ''cc'']"
  "applyRemoval (New (idx_cfg None)) ''idx:0'' (JArray [JString ''aaaa'', JString ''cc''])
   = JArray [JString ''cc'']"
  by (simp_all add: applyRemoval_def HasPrefix_def arr_scan idx_fields arr_input_def)

lemma enforceTotal_done:
  "int (length (marshal v)) \<le> TotalLimit (cfg t) \<Longrightarrow> enforceTotal t v = Some (Inr v)"
  by (subst enforceTotal.simps) simp

lemma enforceTotal_next:
  assumes "TotalLimit (cfg t) < int (length (marshal v))"
    and "Strategy (cfg t) = Some strategy"
    and "SelectNextToRemove strategy v = tok" and "tok \<noteq> []"
    and "applyRemoval t tok v = v'"
  shows "enforceTotal t v = enforceTotal t v'"
  using assms by (subst enforceTotal.simps) (simp add: Let_def)

lemma arr_strategy: "Strategy (cfg (New (idx_cfg None))) = Some RemoveLargest"
  by (simp add: idx_fields)

lemma arr_enforceTotal:
  "enforceTotal (New (idx_cfg None)) (JArray arr_input) = Some (Inr (JArray [JString ''cc'']))"
proof -
  have "enforceTotal (New (idx_cfg None)) (JArray arr_input)
      = enforceTotal (New (idx_cfg None)) (JArray [JString ''aaaa'', JString ''cc''])"
    by (rule enforceTotal_next [OF _ arr_strategy arr_select(1) _ arr_applyRemoval(1)])
       (simp_all add: idx_fields arr_input_def appendString_def htmlSafe_def)
  also have "\<dots> = enforceTotal (New (idx_cfg None)) (JArray [JString ''cc''])"
    by (rule enforceTotal_next [OF _ arr_strategy arr_select(2) _ arr_applyRemoval(2)])
       (simp_all add: idx_fields arr_input_def appendString_def htmlSafe_def)
  also have "\<dots> = Some (Inr (JArray [JString ''cc'']))"
    by (rule enforceTotal_done) (simp add: idx_fields appendString_def htmlSafe_def)
  finally show ?thesis .
qed

lemma arr_strip:
  "stripRecursive (New (idx_cfg None)) (JArray arr_input) [] = JArray arr_input"
  by (simp add: stripRecursive.simps matchesBlacklist_def arr_input_def idx_fields)

lemma arr_trimFields:
  "trimFields (New (idx_cfg None)) (JArray arr_input) 1 = JArray arr_input"
  by (simp add: trimFields.simps checkFieldSize_def arr_input_def idx_fields)

lemma fl9_fields:
  "FieldLimit (cfg (New fl9_cfg)) = 9" "MaxDepth (cfg (New fl9_cfg)) = 10"
  "TruncateStrings (cfg (New fl9_cfg))"
  by (simp_all add: New_def fl9_cfg_def Config_zero_def)

lemma five_e_trimFields:
  "trimFields (New fl9_cfg) (JString five_e) 1 = JString ([CHR 0xC3, CHR 0xA9, CHR 0xC3] @ ''...'')"
  by (simp add: trimFields.simps fl9_fields five_e_def)

lemma deep_trimFields:
  "trimFields (New basic_cfg) (JString (replicate 2000 CHR ''x'')) 11 = JNil"
  by (simp add: trimFields.simps basic_fields)

lemma Split_not_Nil: "Split s \<noteq> []"
  by (induction s) (auto split: list.splits)

lemma New_rule_not_Nil: "rule \<in> set (blacklistParts (New c)) \<Longrightarrow> rule \<noteq> []"
  by (auto simp: New_def Split_not_Nil)

subsection \<open>What the pipeline returns when it returns\<close>

lemma enforceTotal_no_panic:
  assumes "enforceTotal t v = Some res" and "Strategy (cfg t) \<noteq> None"
  shows "\<exists>v'. res = Inr v'"
proof -
  have "Strategy (cfg t') \<noteq> None \<longrightarrow> (\<exists>v'. res' = Inr v')"
    if a: "enforceTotal t' v' = Some res'" for t' v' res'
    by (rule enforceTotal.raw_induct
          [where P = "\<lambda>t v res. Strategy (cfg t) \<noteq> None \<longrightarrow> (\<exists>v'. res = Inr v')", OF _ a])
       (auto simp: Let_def split: if_splits option.splits)
  with assms show ?thesis
    by blast
qed

lemma New_hooks:
  "\<exists>pre. PreTrim (Hooks (cfg (New c))) = Some pre"
  "\<exists>post. PostTrim (Hooks (cfg (New c))) = Some post"
  "Strategy (cfg (New c)) \<noteq> None"
  by (auto simp: New_def)

lemma Trim_returns_within_budget:
  assumes ret: "Trim Unmarshal (New c) raw = Some res" and parsed: "Unmarshal raw = Inr v"
  shows "res = Inl ErrCannotTrim
    \<or> (\<exists>out. res = Inr out \<and> int (length out) \<le> TotalLimit (cfg (New c)))"
proof -
  from New_hooks(1) [of c] obtain pre where pre: "PreTrim (Hooks (cfg (New c))) = Some pre"
    by blast
  from New_hooks(2) [of c] obtain post where post: "PostTrim (Hooks (cfg (New c))) = Some post"
    by blast
  define v2 where "v2 = trimFields (New c) (pre (stripBlacklisted (New c) v)) 1"
  from ret parsed pre obtain r where r: "enforceTotal (New c) v2 = Some r"
    by (cases "enforceTotal (New c) v2") (auto simp: Trim_def v2_def)
  from enforceTotal_no_panic [OF r New_hooks(3)] obtain v3 where v3: "r = Inr v3"
    by blast
  from ret parsed pre post r v3 show ?thesis
    by (auto simp: Trim_def v2_def Let_def split: if_splits)
qed

subsection \<open>How deep the trimmed value nests\<close>




subsection \<open>Objects under total enforcement\<close>

lemma set_AList_update: "set (AList.update k v al) \<subseteq> insert (k, v) (set al)"
  by (induction al) auto

lemma set_AList_delete: "set (AList.delete k al) \<subseteq> set al"
  by (auto simp: AList.delete_eq)

lemma applyRemoval_object:
  "\<exists>out. applyRemoval t tok (JObject vv) = JObject out
     \<and> list_all (entry_kept_or_marker vv) out"
proof -
  have 1: "list_all (entry_kept_or_marker vv) vv"
    by (simp add: list_all_iff entry_kept_or_marker_def)
  have 2: "list_all (entry_kept_or_marker vv) (AList.update tok (JString Marker) vv)"
    using set_AList_update [of tok "JString Marker" vv]
    by (auto simp: list_all_iff entry_kept_or_marker_def)
  have 3: "list_all (entry_kept_or_marker vv) (AList.delete tok vv)"
    using set_AList_delete [of tok vv]
    by (auto simp: list_all_iff entry_kept_or_marker_def)
  show ?thesis
    using 1 2 3 by (simp add: applyRemoval_def)
qed

lemma entry_kept_or_marker_trans:
  "list_all (entry_kept_or_marker mid) out \<Longrightarrow> list_all (entry_kept_or_marker vv) mid
   \<Longrightarrow> list_all (entry_kept_or_marker vv) out"
  by (auto simp: list_all_iff entry_kept_or_marker_def)

lemma enforceTotal_object:
  assumes "enforceTotal t (JObject vv) = Some (Inr r)"
  shows "\<exists>out. r = JObject out \<and> list_all (entry_kept_or_marker vv) out"
proof -
  have "\<forall>vv r. v = JObject vv \<longrightarrow> res = Inr r \<longrightarrow>
          (\<exists>out. r = JObject out \<and> list_all (entry_kept_or_marker vv) out)"
    if a: "enforceTotal t' v = Some res" for t' v res
  proof (rule enforceTotal.raw_induct
      [where P = "\<lambda>t' v res. \<forall>vv r. v = JObject vv \<longrightarrow> res = Inr r \<longrightarrow>
          (\<exists>out. r = JObject out \<and> list_all (entry_kept_or_marker vv) out)", OF _ a])
    fix f :: "Trimmer \<Rightarrow> json \<Rightarrow> (error + json) option" and t v res
    assume IH: "\<And>t v res. f t v = Some res \<Longrightarrow> \<forall>vv r. v = JObject vv \<longrightarrow> res = Inr r \<longrightarrow>
          (\<exists>out. r = JObject out \<and> list_all (entry_kept_or_marker vv) out)"
      and step: "(if int (length (marshal v)) \<le> TotalLimit (cfg t) then Some (Inr v)
        else case Strategy (cfg t) of
          None \<Rightarrow> Some (Inl Panic)
        | Some strategy \<Rightarrow>
            (let toRemove = SelectNextToRemove strategy v in
             if toRemove = [] then Some (Inr v)
             else f t (applyRemoval t toRemove v))) = Some res"
    show "\<forall>vv r. v = JObject vv \<longrightarrow> res = Inr r \<longrightarrow>
          (\<exists>out. r = JObject out \<and> list_all (entry_kept_or_marker vv) out)"
    proof (intro allI impI)
      fix vv r
      assume v: "v = JObject vv" and res: "res = Inr r"
      from enforceTotal_step [of v t f r, OF step [unfolded res]]
      consider (stop) "r = v" | (go) tok where "f t (applyRemoval t tok v) = Some (Inr r)"
        by blast
      then show "\<exists>out. r = JObject out \<and> list_all (entry_kept_or_marker vv) out"
      proof cases
        case stop
        with v show ?thesis
          by (simp add: list_all_iff entry_kept_or_marker_def)
      next
        case go
        from applyRemoval_object [of t tok vv] obtain mid
          where mid: "applyRemoval t tok (JObject vv) = JObject mid"
            and emb: "list_all (entry_kept_or_marker vv) mid"
          by blast
        from IH [OF go] v mid obtain out
          where r: "r = JObject out" and "list_all (entry_kept_or_marker mid) out"
          by auto
        with emb have "list_all (entry_kept_or_marker vv) out"
          by (blast intro: entry_kept_or_marker_trans)
        with r show ?thesis
          by blast
      qed
    qed
  qed
  with assms show ?thesis
    by blast
qed

subsection \<open>When the total enforcer returns\<close>

text \<open>\<^verbatim>\<open>Sscanf\<close> reads back the index that \<^verbatim>\<open>Sprintf\<close> printed.\<close>

lemma digit_char:
  assumes "d < 10"
  shows "(of_char (''0123456789'' ! d) :: nat) = 48 + d"
proof -
  from assms consider "d = 0" | "d = 1" | "d = 2" | "d = 3" | "d = 4"
    | "d = 5" | "d = 6" | "d = 7" | "d = 8" | "d = 9"
    by atomize_elim arith
  then show ?thesis by cases simp_all
qed

lemma is_digit_char: "d < 10 \<Longrightarrow> is_digit (''0123456789'' ! d)"
  by (simp only: is_digit_def digit_char) simp

lemma is_digit_not_space:
  "is_digit c \<Longrightarrow> \<not> is_blank c \<and> \<not> space2 c b \<and> \<not> space3 c b d"
  by (auto simp: is_digit_def is_blank_def space2_def space3_def)

lemma SkipSpace_digit: "is_digit c \<Longrightarrow> SkipSpace (c # r) = c # r"
  by (cases "c # r" rule: SkipSpace.cases) (simp_all add: is_digit_not_space)

lemma is_digit_not_sign: "is_digit c \<Longrightarrow> c \<noteq> CHR ''-'' \<and> c \<noteq> CHR ''+''"
  by (auto simp: is_digit_def)

lemma Sprintf_d_small: "n < 10 \<Longrightarrow> Sprintf_d n = [''0123456789'' ! n]"
  by (subst Sprintf_d.simps) (simp del: Sprintf_d.simps)

lemma Sprintf_d_big:
  "\<not> n < 10 \<Longrightarrow> Sprintf_d n = Sprintf_d (n div 10) @ [''0123456789'' ! (n mod 10)]"
  by (subst Sprintf_d.simps) (simp del: Sprintf_d.simps)

lemma Sprintf_d_digits: "Sprintf_d n \<noteq> [] \<and> list_all is_digit (Sprintf_d n)"
proof (induction n rule: Sprintf_d.induct)
  case (1 n)
  show ?case
  proof (cases "n < 10")
    case True
    then show ?thesis
      unfolding Sprintf_d_small [OF True] by (simp add: is_digit_char del: Sprintf_d.simps)
  next
    case False
    have "n mod 10 < 10" by simp
    then have "is_digit (''0123456789'' ! (n mod 10))" by (rule is_digit_char)
    with False 1 show ?thesis
      unfolding Sprintf_d_big [OF False] by (simp del: Sprintf_d.simps)
  qed
qed

lemma digits_value_append:
  "digits_value (xs @ [c]) acc = digits_value xs acc * 10 + (of_char c - 48)"
  by (induction xs arbitrary: acc) simp_all

lemma digits_value_Sprintf_d: "digits_value (Sprintf_d n) 0 = n"
proof (induction n rule: Sprintf_d.induct)
  case (1 n)
  show ?case
  proof (cases "n < 10")
    case True
    show ?thesis
      unfolding Sprintf_d_small [OF True] using True
      by (simp add: digit_char del: Sprintf_d.simps)
  next
    case False
    have m: "n mod 10 < 10" by simp
    from False 1 have IH: "digits_value (Sprintf_d (n div 10)) 0 = n div 10"
      by (simp del: Sprintf_d.simps)
    show ?thesis
      unfolding Sprintf_d_big [OF False] digits_value_append IH digit_char [OF m] by simp
  qed
qed

lemma Sscanf_d_digits:
  assumes "ds \<noteq> []" and "list_all is_digit ds" and "digits_value ds 0 \<le> 9223372036854775807"
  shows "Sscanf_d ds = Some (int (digits_value ds 0))"
proof -
  from assms(1) obtain c r where ds: "ds = c # r" by (cases ds) auto
  with assms(2) have c: "is_digit c" by simp
  have b: "SkipSpace ds = ds"
    using c ds by (simp add: SkipSpace_digit del: SkipSpace.simps)
  have t: "takeWhile is_digit ds = ds"
    using assms(2) by (simp add: list_all_iff)
  have s: "c \<noteq> CHR ''-''" "c \<noteq> CHR ''+''" using is_digit_not_sign [OF c] by simp_all
  have neg: "(case ds of [] \<Rightarrow> False | c # _ \<Rightarrow> c = CHR ''-'') = False"
    using ds s by simp
  have s2: "(case ds of [] \<Rightarrow> [] | c # r \<Rightarrow> if c = CHR ''-'' \<or> c = CHR ''+'' then r else ds) = ds"
    using ds s by simp
  show ?thesis
    unfolding Sscanf_d_def Let_def b neg s2 t using assms(1,3) by simp
qed

lemma Sscanf_d_Sprintf_d:
  "n \<le> 9223372036854775807 \<Longrightarrow> Sscanf_d (Sprintf_d n) = Some (int n)"
  using Sscanf_d_digits [of "Sprintf_d n"] Sprintf_d_digits [of n]
  by (simp add: digits_value_Sprintf_d del: Sprintf_d.simps)

text \<open>Every token of a shipped strategy names an entry of the value.\<close>

lemma largest_idx_range:
  "largest_idx vv i m ms = m \<or>
   (i \<le> largest_idx vv i m ms \<and> largest_idx vv i m ms < i + int (length vv))"
proof (induction vv arbitrary: i m ms)
  case Nil
  show ?case by simp
next
  case (Cons a vv)
  show ?case
    using Cons [of "i + 1" i "estimateSize a"] Cons [of "i + 1" m ms]
    by (auto simp: Let_def)
qed

lemma largest_key_range: "largest_key vv k ms = k \<or> largest_key vv k ms \<in> fst ` set vv"
proof (induction vv arbitrary: k ms)
  case Nil
  show ?case by simp
next
  case (Cons a vv)
  obtain k' v' where a: "a = (k', v')" by (cases a)
  show ?case
    using Cons [of k' "estimateSize v'"] Cons [of k ms]
    by (auto simp: Let_def a)
qed

lemma builtin_token: "builtin s \<Longrightarrow> token_ok v (SelectNextToRemove s v)"
proof (induction s v rule: SelectNextToRemove.induct)
  case (1 v)
  show ?case
  proof (cases v)
    case (JObject vv)
    then show ?thesis using largest_key_range [of vv "[]" 0] by (auto simp: token_ok_def)
  next
    case (JArray vv)
    have "largest_idx vv 0 (- 1) 0 \<ge> 0 \<Longrightarrow> nat (largest_idx vv 0 (- 1) 0) < length vv"
      using largest_idx_range [of vv 0 "- 1" 0] by auto
    then show ?thesis using JArray
      by (auto simp: token_ok_def Let_def simp del: Sprintf_d.simps)
  qed (simp_all add: token_ok_def)
next
  case (2 v)
  show ?case
    by (cases v) (auto simp: token_ok_def split: list.splits simp del: Sprintf_d.simps)
next
  case (3 KeepKeys Fallback v)
  define fallback where "fallback = (case Fallback of None \<Rightarrow> FIFO | Some s \<Rightarrow> s)"
  have b: "builtin fallback" using 3(4) by (simp add: fallback_def split: option.splits)
  show ?case
  proof (cases "length KeepKeys = 0")
    case True
    with 3(1) [OF fallback_def True b] show ?thesis
      by (simp add: fallback_def)
  next
    case False
    show ?thesis
    proof (cases v)
      case (JObject vv)
      define candidates where "candidates = filter (\<lambda>(k, val). k \<notin> set KeepKeys) vv"
      show ?thesis
      proof (cases "length candidates > 0")
        case True
        have "token_ok (JObject candidates) (SelectNextToRemove fallback (JObject candidates))"
          using 3(2) [OF fallback_def False JObject candidates_def True b] .
        then have "token_ok v (SelectNextToRemove fallback (JObject candidates))"
          by (auto simp: token_ok_def JObject candidates_def)
        then show ?thesis using False True JObject
          by (simp add: fallback_def [symmetric] candidates_def [symmetric])
      next
        case F: False
        have "token_ok v (SelectNextToRemove fallback v)"
          using 3(3) [OF fallback_def False JObject candidates_def F b] .
        then show ?thesis using False F JObject
          by (simp add: fallback_def [symmetric] candidates_def [symmetric])
      qed
    qed (use False in \<open>simp_all add: token_ok_def\<close>)
  qed
next
  case (4 f v)
  then show ?case by simp
qed

text \<open>Acting on such a token lowers the number of entries plus the number of entries that
  are not the marker: an entry is first replaced by the marker (when markers are on), and
  a marker is deleted.\<close>

lemma unmarked_mark:
  assumes "i < length vv" and "vv ! i \<noteq> JString Marker"
  shows "unmarked (vv[i := JString Marker]) < unmarked vv"
proof -
  have 1: "vv = take i vv @ vv ! i # drop (Suc i) vv"
    using assms(1) by (rule id_take_nth_drop)
  have 2: "vv[i := JString Marker] = take i vv @ JString Marker # drop (Suc i) vv"
    using assms(1) by (rule upd_conv_take_nth_drop)
  have "unmarked (take i vv @ JString Marker # drop (Suc i) vv)
      < unmarked (take i vv @ vv ! i # drop (Suc i) vv)"
    using assms(2) by (simp add: unmarked_def)
  then show ?thesis using 1 2 by simp
qed

lemma unmarked_remove:
  assumes "i < length vv"
  shows "unmarked (take i vv @ drop (Suc i) vv) \<le> unmarked vv"
proof -
  have 1: "vv = take i vv @ vv ! i # drop (Suc i) vv"
    using assms(1) by (rule id_take_nth_drop)
  have "unmarked (take i vv @ drop (Suc i) vv)
      \<le> unmarked (take i vv @ vv ! i # drop (Suc i) vv)"
    by (simp add: unmarked_def)
  then show ?thesis using 1 by simp
qed

lemma applyRemoval_array_progress:
  assumes "i < length vv" and "length vv \<le> 9223372036854775808"
  shows "\<exists>ww. applyRemoval t (''idx:'' @ Sprintf_d i) (JArray vv) = JArray ww
            \<and> length ww \<le> length vv \<and> length ww + unmarked ww < length vv + unmarked vv"
proof -
  have s: "Sscanf_d (Sprintf_d i) = Some (int i)"
    using assms by (intro Sscanf_d_Sprintf_d) simp
  have h: "HasPrefix (''idx:'' @ Sprintf_d i) ''idx:''" by (simp add: HasPrefix_def del: Sprintf_d.simps)
  have d: "drop 4 (''idx:'' @ Sprintf_d i) = Sprintf_d i" by (simp del: Sprintf_d.simps)
  show ?thesis
  proof (cases "ReplaceWithMarker (cfg t) \<and> vv ! i \<noteq> JString Marker")
    case True
    then have "applyRemoval t (''idx:'' @ Sprintf_d i) (JArray vv) = JArray (vv[i := JString Marker])"
      using assms(1) h d by (simp add: applyRemoval_def s del: Sprintf_d.simps)
    moreover have "unmarked (vv[i := JString Marker]) < unmarked vv"
      using assms(1) True by (intro unmarked_mark) simp_all
    ultimately show ?thesis by simp
  next
    case False
    then have "applyRemoval t (''idx:'' @ Sprintf_d i) (JArray vv) = JArray (take i vv @ drop (i + 1) vv)"
      using assms(1) h d by (auto simp add: applyRemoval_def s simp del: Sprintf_d.simps)
    moreover have "unmarked (take i vv @ drop (i + 1) vv) \<le> unmarked vv"
      using unmarked_remove [OF assms(1)] by simp
    moreover have "length (take i vv @ drop (i + 1) vv) < length vv"
      using assms(1) by simp
    ultimately show ?thesis by (intro exI [of _ "take i vv @ drop (i + 1) vv"]) simp
  qed
qed

lemma unmarked_update:
  assumes "k \<in> fst ` set vv" and "map_of vv k \<noteq> Some (JString Marker)"
  shows "length (AList.update k (JString Marker) vv) = length vv
       \<and> unmarked (map snd (AList.update k (JString Marker) vv)) < unmarked (map snd vv)"
  using assms
proof (induction vv)
  case Nil
  then show ?case by simp
next
  case (Cons a vv)
  obtain k' v' where a: "a = (k', v')" by (cases a)
  show ?case
  proof (cases "k' = k")
    case True
    with Cons.prems(2) show ?thesis by (simp add: a unmarked_def)
  next
    case False
    with Cons.prems have "k \<in> fst ` set vv" and "map_of vv k \<noteq> Some (JString Marker)"
      by (auto simp: a)
    from Cons.IH [OF this] False show ?thesis by (simp add: a unmarked_def)
  qed
qed

lemma unmarked_delete_le:
  "length (AList.delete k vv) \<le> length vv
     \<and> unmarked (map snd (AList.delete k vv)) \<le> unmarked (map snd vv)"
  by (induction vv) (auto simp: unmarked_def)

lemma unmarked_delete:
  assumes "k \<in> fst ` set vv"
  shows "length (AList.delete k vv) < length vv
       \<and> unmarked (map snd (AList.delete k vv)) \<le> unmarked (map snd vv)"
  using assms
proof (induction vv)
  case Nil
  then show ?case by simp
next
  case (Cons a vv)
  obtain k' v' where a: "a = (k', v')" by (cases a)
  show ?case
  proof (cases "k' = k")
    case True
    with unmarked_delete_le [of k vv] show ?thesis by (simp add: a unmarked_def)
  next
    case False
    with Cons.prems have "k \<in> fst ` set vv" by (auto simp: a)
    from Cons.IH [OF this] False show ?thesis by (simp add: a unmarked_def)
  qed
qed

lemma applyRemoval_object_progress:
  assumes "k \<in> fst ` set vv" and "list_all (\<lambda>(k, val). \<not> HasPrefix k ''idx:'') vv"
  shows "\<exists>ww. applyRemoval t k (JObject vv) = JObject ww
            \<and> list_all (\<lambda>(k, val). \<not> HasPrefix k ''idx:'') ww
            \<and> length ww + unmarked (map snd ww) < length vv + unmarked (map snd vv)"
proof -
  from assms have h: "\<not> HasPrefix k ''idx:''" by (auto simp: list_all_iff)
  show ?thesis
  proof (cases "ReplaceWithMarker (cfg t) \<and> map_of vv k \<noteq> Some (JString Marker)")
    case True
    then have "applyRemoval t k (JObject vv) = JObject (AList.update k (JString Marker) vv)"
      using h by (simp add: applyRemoval_def)
    moreover have "list_all (\<lambda>(k, val). \<not> HasPrefix k ''idx:'') (AList.update k (JString Marker) vv)"
      using set_AList_update [of k "JString Marker" vv] assms(2) h by (auto simp: list_all_iff)
    moreover note unmarked_update [OF assms(1)] True
    ultimately show ?thesis by simp
  next
    case False
    then have "applyRemoval t k (JObject vv) = JObject (AList.delete k vv)"
      using h by (auto simp add: applyRemoval_def)
    moreover have "list_all (\<lambda>(k, val). \<not> HasPrefix k ''idx:'') (AList.delete k vv)"
      using set_AList_delete [of k vv] assms(2) by (auto simp: list_all_iff)
    moreover note unmarked_delete [OF assms(1)]
    ultimately show ?thesis by simp
  qed
qed

lemma applyRemoval_progress:
  assumes "removable v" and "token_ok v tok" and "tok \<noteq> []"
  shows "removable (applyRemoval t tok v)
       \<and> removal_measure (applyRemoval t tok v) < removal_measure v"
proof (cases v)
  case (JObject vv)
  with assms have "tok \<in> fst ` set vv" and "list_all (\<lambda>(k, val). \<not> HasPrefix k ''idx:'') vv"
    by (simp_all add: token_ok_def removable_def)
  from applyRemoval_object_progress [OF this, of t] show ?thesis
    by (auto simp: removable_def removal_measure_def JObject)
next
  case (JArray vv)
  with assms obtain i where i: "i < length vv" "tok = ''idx:'' @ Sprintf_d i"
    by (auto simp: token_ok_def simp del: Sprintf_d.simps)
  from assms(1) JArray have len: "length vv \<le> 9223372036854775808" by (simp add: removable_def)
  from applyRemoval_array_progress [OF i(1) len, of t] len show ?thesis
    by (auto simp: removable_def removal_measure_def JArray i(2) simp del: Sprintf_d.simps)
qed (use assms in \<open>simp_all add: token_ok_def\<close>)

text \<open>So with a shipped strategy the loop returns on every scalar, on every array, and on
  every map none of whose keys starts with \<^verbatim>\<open>idx:\<close>; and so does the pipeline (without a
  caller's pre-trim hook), whose first two stages add no key to the top-level map.\<close>

lemma enforceTotal_returns:
  assumes "Strategy (cfg t) = Some s" and "builtin s" and "removable v"
  shows "\<exists>r. enforceTotal t v = Some (Inr r)"
  using assms(3)
proof (induction "removal_measure v" arbitrary: v rule: less_induct)
  case less
  define tok where "tok = SelectNextToRemove s v"
  have ok: "token_ok v tok" unfolding tok_def using assms(2) by (rule builtin_token)
  show ?case
  proof (cases "int (length (marshal v)) \<le> TotalLimit (cfg t) \<or> tok = []")
    case True
    then show ?thesis
      by (subst enforceTotal.simps) (auto simp: assms(1) tok_def [symmetric] Let_def)
  next
    case False
    then have eq: "enforceTotal t v = enforceTotal t (applyRemoval t tok v)"
      by (subst enforceTotal.simps) (simp add: assms(1) tok_def [symmetric] Let_def)
    from False have "tok \<noteq> []" by simp
    from applyRemoval_progress [OF less.prems ok this, of t] less.hyps show ?thesis
      unfolding eq by blast
  qed
qed

lemma removable_stripRecursive:
  assumes "removable v"
  shows "removable (stripRecursive t v p)"
proof (cases v)
  case (JObject vv)
  with assms show ?thesis
    by (auto simp: stripRecursive.simps [of t _ p] removable_def list_all_iff)
next
  case (JArray vv)
  show ?thesis
  proof (cases "stripRecursive t v p")
    case out: (JArray out)
    from stripRecursive_array_order [OF out [unfolded JArray]] have "length out \<le> length vv"
      by (rule list_emb_length)
    with assms show ?thesis by (simp add: removable_def JArray out [unfolded JArray])
  next
    case (JObject kvs)
    then show ?thesis
      by (auto simp: JArray stripRecursive.simps [of t _ p] Let_def split: if_splits)
  qed (simp_all add: removable_def)
qed (simp_all add: stripRecursive.simps [of t _ p] removable_def)

lemma removable_stripBlacklisted: "removable v \<Longrightarrow> removable (stripBlacklisted t v)"
  by (simp add: stripBlacklisted_def removable_stripRecursive)

lemma removable_trimFields:
  assumes "removable v"
  shows "removable (trimFields t v depth)"
proof (cases v)
  case (JObject vv)
  with assms show ?thesis
    by (auto simp: trimFields.simps [of t _ depth] removable_def list_all_iff
             split: option.splits)
next
  case (JArray vv)
  show ?thesis
  proof (cases "trimFields t v depth")
    case out: (JArray out)
    from trimFields_array_order [OF out [unfolded JArray]] have "length out \<le> length vv"
      by (rule list_emb_length)
    with assms show ?thesis by (simp add: removable_def JArray out [unfolded JArray])
  next
    case (JObject kvs)
    then show ?thesis
      by (auto simp: JArray trimFields.simps [of t _ depth] split: if_splits)
  qed (simp_all add: removable_def)
qed (simp_all add: trimFields.simps [of t _ depth] removable_def Let_def)

lemma Trim_returns:
  assumes parsed: "Unmarshal raw = Inr v" and "removable v"
    and pre: "PreTrim (Hooks c) = None"
    and strategy: "case Strategy c of None \<Rightarrow> True | Some s \<Rightarrow> builtin s"
  shows "\<exists>res. Trim Unmarshal (New c) raw = Some res"
proof -
  have p: "PreTrim (Hooks (cfg (New c))) = Some (\<lambda>v. v)"
    using pre by (simp add: New_def)
  from New_hooks(2) [of c] obtain post where post: "PostTrim (Hooks (cfg (New c))) = Some post"
    by blast
  obtain s where s: "Strategy (cfg (New c)) = Some s" "builtin s"
    using strategy by (cases "Strategy c") (auto simp: New_def)
  have "removable (trimFields (New c) (stripBlacklisted (New c) v) 1)"
    using assms(2) by (intro removable_trimFields removable_stripBlacklisted)
  from enforceTotal_returns [OF s this] obtain r
    where "enforceTotal (New c) (trimFields (New c) (stripBlacklisted (New c) v) 1) = Some (Inr r)"
    by blast
  then show ?thesis
    by (simp add: Trim_def parsed p post Let_def)
qed

section \<open>Properties\<close>



text \<open>
  C7. Not every string longer than \<open>FieldLimit\<close> is truncated when \<open>TruncateStrings\<close> is
  set, and what is kept is counted in bytes. Beyond \<open>MaxDepth\<close> the depth test comes
  first: at depth 11, with \<open>MaxDepth\<close> 10 and a field limit of 500, a string of 2000 bytes
  becomes \<^verbatim>\<open>nil\<close>. With a field limit of 9 a string of five two-byte characters (10
  bytes) is cut after \<open>9 - 6 = 3\<close> bytes, that is, in the middle of its second character.
\<close>

theorem trimFields_long_string_not_truncated:
  "MaxDepth (cfg (New basic_cfg)) = 10 \<and> TruncateStrings (cfg (New basic_cfg))
   \<and> FieldLimit (cfg (New basic_cfg)) = 500 \<and> length (replicate 2000 CHR ''x'') = 2000
   \<and> trimFields (New basic_cfg) (JString (replicate 2000 CHR ''x'')) 11 = JNil
   \<and> FieldLimit (cfg (New fl9_cfg)) = 9 \<and> TruncateStrings (cfg (New fl9_cfg))
   \<and> length five_e = 10
   \<and> trimFields (New fl9_cfg) (JString five_e) 1
       = JString ([CHR 0xC3, CHR 0xA9, CHR 0xC3] @ ''...'')"
  using basic_fields(1,3,4) deep_trimFields fl9_fields(1,3) five_e_trimFields
  by (simp add: five_e_def)

text \<open>
  C7, as the code has it. On a string at a depth within \<open>MaxDepth\<close> whose length in
  bytes exceeds \<open>FieldLimit\<close>, the field trimmer returns the first \<open>FieldLimit - 6\<close> bytes
  followed by three dots when \<open>TruncateStrings\<close> is set and \<open>FieldLimit - 6\<close> is
  positive, and the marker or \<^verbatim>\<open>nil\<close> otherwise. In the scenario (field limit 500, total
  limit 1024, truncation on) \<open>id\<close> is kept, \<open>data\<close> becomes 494 bytes and three dots, and
  the output has 519 bytes.
\<close>

theorem trimFields_truncates_long_string:
  "(depth \<le> MaxDepth (cfg t) \<and> FieldLimit (cfg t) < int (length str) \<longrightarrow>
      trimFields t (JString str) depth =
        (if TruncateStrings (cfg t) \<and> 0 < FieldLimit (cfg t) - 6
         then JString (take (nat (FieldLimit (cfg t) - 6)) str @ ''...'')
         else if ReplaceWithMarker (cfg t) then JString Marker else JNil))
   \<and> Trim (\<lambda>raw. Inr basic_input) (New basic_cfg) raw = Some (Inr (marshal basic_output))
   \<and> int (length (marshal basic_output)) \<le> 1024"
proof (intro conjI impI)
  assume "depth \<le> MaxDepth (cfg t) \<and> FieldLimit (cfg t) < int (length str)"
  then show "trimFields t (JString str) depth =
        (if TruncateStrings (cfg t) \<and> 0 < FieldLimit (cfg t) - 6
         then JString (take (nat (FieldLimit (cfg t) - 6)) str @ ''...'')
         else if ReplaceWithMarker (cfg t) then JString Marker else JNil)"
    by (auto simp: trimFields.simps Let_def)
next
  show "Trim (\<lambda>raw. Inr basic_input) (New basic_cfg) raw = Some (Inr (marshal basic_output))"
    by (rule basic_Trim)
  show "int (length (marshal basic_output)) \<le> 1024"
    by (simp add: basic_marshal)
qed

theorem trimFields_truncates_long_string_witness:
  "2 \<le> MaxDepth (cfg (New basic_cfg))
   \<and> FieldLimit (cfg (New basic_cfg)) < int (length (replicate 2000 CHR ''x''))
   \<and> trimFields (New basic_cfg) (JString (replicate 2000 CHR ''x'')) 2
       = JString (replicate 494 CHR ''x'' @ ''...'')"
  using trimFields_truncates_long_string [of 2 "New basic_cfg" "replicate 2000 CHR ''x''"]
  by (simp only: basic_fields) simp

text \<open>
  C10. \<^verbatim>\<open>New\<close> replaces every field that has its zero value by the default and leaves
  the others alone, so no trimmer it returns has a zero limit or a zero \<open>MaxDepth\<close>; a
  configuration with \<open>MaxDepth\<close> 0 gives the same trimmer as one with \<open>MaxDepth\<close> 10, and
  \<^verbatim>\<open>Trim\<close> behaves the same on both.
\<close>

theorem New_fills_defaults:
  fixes c :: Config
  shows "FieldLimit (cfg (New c)) = (if FieldLimit c = 0 then 500 else FieldLimit c)
    \<and> TotalLimit (cfg (New c)) = (if TotalLimit c = 0 then 1024 else TotalLimit c)
    \<and> MaxDepth (cfg (New c)) = (if MaxDepth c = 0 then 10 else MaxDepth c)
    \<and> Strategy (cfg (New c)) = (if Strategy c = None then Some RemoveLargest else Strategy c)
    \<and> PreTrim (Hooks (cfg (New c)))
        = (if PreTrim (Hooks c) = None then Some (\<lambda>v. v) else PreTrim (Hooks c))
    \<and> PostTrim (Hooks (cfg (New c)))
        = (if PostTrim (Hooks c) = None then Some (\<lambda>v err. v) else PostTrim (Hooks c))
    \<and> Blacklist (cfg (New c)) = Blacklist c
    \<and> TruncateStrings (cfg (New c)) = TruncateStrings c
    \<and> ReplaceWithMarker (cfg (New c)) = ReplaceWithMarker c
    \<and> blacklistParts (New c) = map Split (Blacklist c)
    \<and> FieldLimit (cfg (New c)) \<noteq> 0 \<and> TotalLimit (cfg (New c)) \<noteq> 0
    \<and> MaxDepth (cfg (New c)) \<noteq> 0
    \<and> New (c\<lparr>MaxDepth := 0\<rparr>) = New (c\<lparr>MaxDepth := 10\<rparr>)
    \<and> Trim Unmarshal (New (c\<lparr>MaxDepth := 0\<rparr>)) raw
        = Trim Unmarshal (New (c\<lparr>MaxDepth := 10\<rparr>)) raw"
proof -
  have same: "New (c\<lparr>MaxDepth := 0\<rparr>) = New (c\<lparr>MaxDepth := 10\<rparr>)"
    by (simp add: New_def)
  show ?thesis
    unfolding same by (simp add: New_def)
qed

text \<open>
  C9. The loop of the total enforcer does not always terminate. A token that starts with
  \<^verbatim>\<open>idx:\<close> is read as an array index, and on a map it is skipped; a key of the object
  that starts with \<^verbatim>\<open>idx:\<close> is therefore never removed, and once a built-in strategy
  selects it the loop repeats in the same state for ever. Here the object has the single
  key \<^verbatim>\<open>idx:0\<close> with a string of 20 bytes (32 bytes serialised), the limit is 10, and
  the strategy is the default, \<^verbatim>\<open>RemoveLargest\<close>, \<^verbatim>\<open>FIFO\<close> or \<^verbatim>\<open>PrioritizeKeys\<close>.
\<close>

theorem enforceTotal_idx_key_never_returns:
  "enforceTotal (New (idx_cfg None)) idx_input = None
   \<and> enforceTotal (New (idx_cfg (Some RemoveLargest))) idx_input = None
   \<and> enforceTotal (New (idx_cfg (Some FIFO))) idx_input = None
   \<and> enforceTotal (New (idx_cfg (Some (PrioritizeKeys [''id''] None)))) idx_input = None"
  by (simp add: idx_enforceTotal)

text \<open>
  C1. On the same input \<^verbatim>\<open>Trim\<close> returns neither an output nor an error: the field
  trimmer keeps the object, and the total enforcer never returns.
\<close>

theorem Trim_idx_key_never_returns:
  "Trim (\<lambda>raw. Inr idx_input) (New (idx_cfg None)) raw = None"
  by (simp add: Trim_def idx_fields stripBlacklisted_def idx_trimFields idx_enforceTotal)

text \<open>
  C3. The code does not bound the exact size of every string by \<open>FieldLimit\<close>. A string
  at the root is compared by its raw length only: with a field limit of 10 a string of
  ten bytes passes the field trimmer and the whole of \<^verbatim>\<open>Trim\<close>, and is 12 bytes once
  serialised. A member is measured exactly only when its estimate (raw length plus 2)
  exceeds the limit: a member of eight double quotes has the estimate 10, is kept, and
  is 18 bytes once serialised.
\<close>

theorem trimFields_string_over_FieldLimit:
  "FieldLimit (cfg (New fl10_cfg)) = 10
   \<and> trimFields (New fl10_cfg) (JString ''aaaaaaaaaa'') 1 = JString ''aaaaaaaaaa''
   \<and> Trim (\<lambda>raw. Inr (JString ''aaaaaaaaaa'')) (New fl10_cfg) []
       = Some (Inr (marshal (JString ''aaaaaaaaaa'')))
   \<and> length (marshal (JString ''aaaaaaaaaa'')) = 12
   \<and> trimFields (New fl10_cfg) quotes_input 1 = quotes_input
   \<and> JString eight_quotes \<in> set (members quotes_input)
   \<and> length (marshal (JString eight_quotes)) = 18"
  using fl10_fields(1) ten_trimFields ten_Trim [of "[]"] ten_marshal quotes_trimFields
    quotes_marshal(2)
  by (simp add: quotes_input_def)

text \<open>
  C3, as the code has it. After the field trimmer every member of the result, at every
  nesting level, is the marker, or has an estimate within \<open>FieldLimit\<close>, or has an exact
  serialised size within \<open>FieldLimit\<close>. A string member is therefore the marker or has a
  raw length of at most \<open>FieldLimit - 2\<close>, so its exact size is within \<open>FieldLimit\<close> when
  none of its bytes is escaped by the serialiser. A string the trimmer returns at any
  position, the root included, is the marker or has a raw length within \<open>FieldLimit\<close>.
\<close>

theorem trimFields_members_within_FieldLimit:
  "(c \<in> set (members (trimFields t v depth)) \<longrightarrow>
      c = JString Marker \<or> estimateSize c \<le> FieldLimit (cfg t)
      \<or> int (length (marshal c)) \<le> FieldLimit (cfg t))
   \<and> (JString s \<in> set (members (trimFields t v depth)) \<longrightarrow>
      s = Marker \<or> int (length s) + 2 \<le> FieldLimit (cfg t))
   \<and> (JString s \<in> set (members (trimFields t v depth)) \<and> list_all plain_byte s \<longrightarrow>
      s = Marker \<or> int (length (marshal (JString s))) \<le> FieldLimit (cfg t))
   \<and> (trimFields t v depth = JString s \<longrightarrow>
      s = Marker \<or> int (length s) \<le> FieldLimit (cfg t))"
proof (intro conjI impI)
  assume "c \<in> set (members (trimFields t v depth))"
  then have "within_FieldLimit t c"
    by (rule members_trimFields)
  then show "c = JString Marker \<or> estimateSize c \<le> FieldLimit (cfg t)
      \<or> int (length (marshal c)) \<le> FieldLimit (cfg t)"
    by (simp add: within_FieldLimit_def)
next
  assume "JString s \<in> set (members (trimFields t v depth))"
  then have "within_FieldLimit t (JString s)"
    by (rule members_trimFields)
  then show "s = Marker \<or> int (length s) + 2 \<le> FieldLimit (cfg t)"
    using length_marshal_JString [of s] by (auto simp: within_FieldLimit_def)
next
  assume a: "JString s \<in> set (members (trimFields t v depth)) \<and> list_all plain_byte s"
  then have "within_FieldLimit t (JString s)"
    by (blast intro: members_trimFields)
  with a show "s = Marker \<or> int (length (marshal (JString s))) \<le> FieldLimit (cfg t)"
    using length_marshal_plain [of s] by (auto simp: within_FieldLimit_def)
next
  assume "trimFields t v depth = JString s"
  then show "s = Marker \<or> int (length s) \<le> FieldLimit (cfg t)"
    by (rule trimFields_JString_result)
qed

theorem trimFields_members_within_FieldLimit_witness:
  "JString ''abcdefgh'' \<in> set (members (trimFields (New fl10_cfg)
      (JObject [(''k'', JString ''abcdefgh''), (''long'', JString ''abcdefghijk'')]) 1))
   \<and> list_all plain_byte ''abcdefgh''
   \<and> ''abcdefgh'' \<noteq> Marker
   \<and> int (length (marshal (JString ''abcdefgh''))) \<le> FieldLimit (cfg (New fl10_cfg))
   \<and> int (length ''abcdefgh'') + 2 \<le> FieldLimit (cfg (New fl10_cfg))"
proof -
  have m: "JString ''abcdefgh'' \<in> set (members (trimFields (New fl10_cfg)
      (JObject [(''k'', JString ''abcdefgh''), (''long'', JString ''abcdefghijk'')]) 1))"
    by (simp add: w_trimFields)
  have p: "list_all plain_byte ''abcdefgh''"
    by (simp add: plain_byte_def htmlSafe_def)
  have n: "''abcdefgh'' \<noteq> Marker"
    by (simp add: Marker_def)
  show ?thesis
    using trimFields_members_within_FieldLimit
            [of "JString ''abcdefgh''" "New fl10_cfg"
                "JObject [(''k'', JString ''abcdefgh''), (''long'', JString ''abcdefghijk'')]"
                1 "''abcdefgh''"]
          m p n
    by (simp add: fl10_fields)
qed

text \<open>
  C4. The stripper does not drop an object that its processing has emptied. With the
  blacklist \<^verbatim>\<open>a.b\<close> the object under \<^verbatim>\<open>a\<close> loses its only entry and stays in the
  result as an empty object, which \<^verbatim>\<open>Trim\<close> then prints. Only the array branch tests
  for an empty result: no call of the stripper returns an empty array.
\<close>

theorem stripRecursive_keeps_emptied_object:
  "stripBlacklisted (New ab_cfg) ab_input = JObject [(''a'', JObject [])]
   \<and> Trim (\<lambda>raw. Inr ab_input) (New ab_cfg) raw
       = Some (Inr (marshal (JObject [(''a'', JObject [])])))
   \<and> stripRecursive t v p \<noteq> JArray []"
  by (simp add: ab_strip ab_Trim stripRecursive_no_empty_array)

text \<open>
  C5. The field trimmer does not keep every \<^verbatim>\<open>null\<close>, and not every boolean. A member
  whose trimmed value is \<^verbatim>\<open>nil\<close> is skipped by both container loops, and a \<^verbatim>\<open>null\<close> is
  \<^verbatim>\<open>nil\<close>: the entry \<^verbatim>\<open>a\<close> and the first element of the array under \<^verbatim>\<open>b\<close> are gone from
  the result. The size check of the loops applies to members of every type: with a field
  limit of 3 the member \<^verbatim>\<open>true\<close> (4 bytes) is dropped.
\<close>

theorem trimFields_drops_null_member:
  "null_input = JObject [(''a'', JNil), (''b'', JArray [JNil, JBool True])]
   \<and> trimFields (New Config_zero) null_input 1 = JObject [(''b'', JArray [JBool True])]
   \<and> FieldLimit (cfg (New fl3_cfg)) = 3
   \<and> trimFields (New fl3_cfg) (JObject [(''a'', JBool True)]) 1 = JObject []"
  by (simp add: null_trimFields fl3_trimFields fl3_fields) (simp add: null_input_def)

text \<open>
  C5, as the code has it. Called on a \<^verbatim>\<open>nil\<close>, a boolean or a number at a depth within
  \<open>MaxDepth\<close>, the field trimmer returns the value unchanged. A boolean or a number that
  is a member of an object or of an array (itself at a depth below \<open>MaxDepth\<close>) goes
  through the size check of the loops like any member: it is kept unchanged when its
  estimate or its serialised size is within \<open>FieldLimit\<close>, and otherwise replaced by the
  marker (with \<open>ReplaceWithMarker\<close>) or left out. The estimate of a boolean is its
  serialised size, and the estimate of a number is 8 whatever the number: with a field
  limit of 8 or more every number is kept, however long its serialisation. What stands
  for the member keeps the member's place: the trimmed container consists of the trimmed
  members before it, then the member (or the marker, or nothing), then the trimmed
  members after it, under the same key in an object.
\<close>

theorem trimFields_keeps_bool_number:
  "(depth \<le> MaxDepth (cfg t) \<longrightarrow>
      trimFields t JNil depth = JNil \<and> trimFields t (JBool b) depth = JBool b
      \<and> trimFields t (JNumber n) depth = JNumber n)
   \<and> (depth < MaxDepth (cfg t) \<and> (c = JBool b \<or> c = JNumber n) \<longrightarrow>
        (\<exists>before after.
            trimFields t (JArray xs) depth = JArray before
          \<and> trimFields t (JArray ys) depth = JArray after
          \<and> trimFields t (JArray (xs @ c # ys)) depth =
              JArray (before @
                (if estimateSize c \<le> FieldLimit (cfg t)
                    \<or> int (length (marshal c)) \<le> FieldLimit (cfg t)
                 then [c]
                 else if ReplaceWithMarker (cfg t) then [JString Marker] else []) @ after))
      \<and> (\<exists>before after.
            trimFields t (JObject kxs) depth = JObject before
          \<and> trimFields t (JObject kys) depth = JObject after
          \<and> trimFields t (JObject (kxs @ (k, c) # kys)) depth =
              JObject (before @
                (if estimateSize c \<le> FieldLimit (cfg t)
                    \<or> int (length (marshal c)) \<le> FieldLimit (cfg t)
                 then [(k, c)]
                 else if ReplaceWithMarker (cfg t) then [(k, JString Marker)] else []) @ after)))
   \<and> estimateSize (JNumber n) = 8
   \<and> estimateSize (JBool b) = int (length (marshal (JBool b)))"
proof (intro conjI impI)
  assume "depth \<le> MaxDepth (cfg t)"
  then show "trimFields t JNil depth = JNil" "trimFields t (JBool b) depth = JBool b"
    "trimFields t (JNumber n) depth = JNumber n"
    by (simp_all add: trimFields_scalar)
next
  assume a: "depth < MaxDepth (cfg t) \<and> (c = JBool b \<or> c = JNumber n)"
  then have le: "depth \<le> MaxDepth (cfg t)" and c: "c = JBool b \<or> c = JNumber n"
    by simp_all
  from a have same: "trimFields t c (depth + 1) = c"
    by (auto simp: trimFields_scalar)
  show "\<exists>before after.
            trimFields t (JArray xs) depth = JArray before
          \<and> trimFields t (JArray ys) depth = JArray after
          \<and> trimFields t (JArray (xs @ c # ys)) depth =
              JArray (before @
                (if estimateSize c \<le> FieldLimit (cfg t)
                    \<or> int (length (marshal c)) \<le> FieldLimit (cfg t)
                 then [c]
                 else if ReplaceWithMarker (cfg t) then [JString Marker] else []) @ after)"
    unfolding trimFields_array [OF le]
    by (simp add: same checkFieldSize_scalar [OF c, symmetric])
  have "(case checkFieldSize t c of None \<Rightarrow> [] | Some kept \<Rightarrow> [(k, kept)]) =
     (if estimateSize c \<le> FieldLimit (cfg t) \<or> int (length (marshal c)) \<le> FieldLimit (cfg t)
      then [(k, c)]
      else if ReplaceWithMarker (cfg t) then [(k, JString Marker)] else [])"
    using c by (auto simp: checkFieldSize_def)
  then show "\<exists>before after.
            trimFields t (JObject kxs) depth = JObject before
          \<and> trimFields t (JObject kys) depth = JObject after
          \<and> trimFields t (JObject (kxs @ (k, c) # kys)) depth =
              JObject (before @
                (if estimateSize c \<le> FieldLimit (cfg t)
                    \<or> int (length (marshal c)) \<le> FieldLimit (cfg t)
                 then [(k, c)]
                 else if ReplaceWithMarker (cfg t) then [(k, JString Marker)] else []) @ after)"
    unfolding trimFields_object [OF le]
    by (simp add: same)
next
  show "estimateSize (JNumber n) = 8"
    by simp
  show "estimateSize (JBool b) = int (length (marshal (JBool b)))"
    by simp
qed


theorem trimFields_keeps_bool_number_witness:
  "1 < MaxDepth (cfg (New fl10_cfg)) \<and> FieldLimit (cfg (New fl10_cfg)) = 10
   \<and> length (marshal (JNumber big_number)) = 23
   \<and> trimFields (New fl10_cfg) (JBool True) 1 = JBool True
   \<and> trimFields (New fl10_cfg) (JNumber big_number) 1 = JNumber big_number
   \<and> trimFields (New fl10_cfg) (JArray [JNil, JNumber big_number, JBool True]) 1
       = JArray [JNumber big_number, JBool True]
   \<and> trimFields (New fl10_cfg)
        (JObject [(''n'', JNil), (''big'', JNumber big_number), (''t'', JBool True)]) 1
       = JObject [(''big'', JNumber big_number), (''t'', JBool True)]
   \<and> 1 < MaxDepth (cfg (New fl3_cfg)) \<and> FieldLimit (cfg (New fl3_cfg)) = 3
   \<and> trimFields (New fl3_cfg) (JArray [JNumber ''7'', JNumber ''1234'']) 1 = JArray [JNumber ''7'']
   \<and> trimFields (New fl3_cfg) (JArray [JNumber ''7'', JBool True]) 1 = JArray [JNumber ''7'']"
  using trimFields_keeps_bool_number
          [where t = "New fl10_cfg" and depth = 1 and b = True and n = big_number
             and c = "JNumber big_number" and xs = "[JNil]" and ys = "[JBool True]"
             and kxs = "[(''n'', JNil)]" and k = "''big''" and kys = "[(''t'', JBool True)]"]
        trimFields_keeps_bool_number
          [where t = "New fl3_cfg" and depth = 1 and n = "''1234''"
             and c = "JNumber ''1234''" and xs = "[JNumber ''7'']" and ys = "[]"]
        trimFields_keeps_bool_number
          [where t = "New fl3_cfg" and depth = 1 and b = True
             and c = "JBool True" and xs = "[JNumber ''7'']" and ys = "[]"]
  by (simp add: fl10_fields fl3_fields fl10_number fl3_number big_number_def)

text \<open>
  C2. A value whose path matches a blacklist rule of the trimmer (the path has as many
  segments as the rule, and each segment of the rule is the wildcard or the segment of
  the path) is never looked at by the stripper: the call for that path returns the
  marker, or \<^verbatim>\<open>nil\<close>, which the parent omits. Nothing of the value reaches the rest of
  the pipeline: the stripped tree and the result of \<^verbatim>\<open>Trim\<close> are the same whatever
  value stands at a matching path of the input, for every choice of hooks and strategy.
  In the scenario both \<^verbatim>\<open>pass\<close> entries under \<^verbatim>\<open>users\<close> are removed and the one under
  \<^verbatim>\<open>meta\<close> is kept.
\<close>

theorem blacklisted_value_never_in_output:
  "(rule \<in> set (blacklistParts (New c)) \<and> path_matches_rule path rule \<longrightarrow>
      stripRecursive (New c) v path
        = (if ReplaceWithMarker (cfg (New c)) then JString Marker else JNil)
      \<and> stripBlacklisted (New c) (replace_at root path w) = stripBlacklisted (New c) root
      \<and> Trim (\<lambda>r. Inr (replace_at root path w)) (New c) raw
          = Trim (\<lambda>r. Inr root) (New c) raw)
   \<and> stripBlacklisted (New users_cfg) users_input = users_output
   \<and> Trim (\<lambda>r. Inr users_input) (New users_cfg) raw = Some (Inr (marshal users_output))"
proof (intro conjI impI)
  assume a: "rule \<in> set (blacklistParts (New c)) \<and> path_matches_rule path rule"
  then have "rule \<noteq> []"
    by (blast dest: New_rule_not_Nil)
  with a have "path \<noteq> []"
    by (auto simp: path_matches_rule_def)
  with a have m: "matchesBlacklist (New c) path"
    by (auto simp: matchesBlacklist_iff)
  from m show "stripRecursive (New c) v path
      = (if ReplaceWithMarker (cfg (New c)) then JString Marker else JNil)"
    by (rule stripRecursive_matched)
  from m show "stripBlacklisted (New c) (replace_at root path w) = stripBlacklisted (New c) root"
    by (rule stripBlacklisted_replace_at)
  from m show "Trim (\<lambda>r. Inr (replace_at root path w)) (New c) raw
      = Trim (\<lambda>r. Inr root) (New c) raw"
    by (rule Trim_replace_at) simp_all
next
  show "stripBlacklisted (New users_cfg) users_input = users_output"
    by (rule users_strip)
  show "Trim (\<lambda>r. Inr users_input) (New users_cfg) raw = Some (Inr (marshal users_output))"
    by (rule users_Trim)
qed

theorem blacklisted_value_never_in_output_witness:
  "[''users'', ''*'', ''pass''] \<in> set (blacklistParts (New users_cfg))
   \<and> path_matches_rule [''users'', ''0'', ''pass''] [''users'', ''*'', ''pass'']
   \<and> stripRecursive (New users_cfg) (JString ''abc'') [''users'', ''0'', ''pass''] = JNil
   \<and> replace_at users_input [''users'', ''0'', ''pass''] (JString ''changed'') \<noteq> users_input
   \<and> Trim (\<lambda>r. Inr (replace_at users_input [''users'', ''0'', ''pass''] (JString ''changed'')))
        (New users_cfg) []
       = Some (Inr (marshal users_output))"
proof -
  have h: "[''users'', ''*'', ''pass''] \<in> set (blacklistParts (New users_cfg))
     \<and> path_matches_rule [''users'', ''0'', ''pass''] [''users'', ''*'', ''pass'']"
    by (simp add: users_fields path_matches_rule_def)
  have d: "replace_at users_input [''users'', ''0'', ''pass''] (JString ''changed'')
      \<noteq> users_input"
    by (simp add: users_input_def)
  from blacklisted_value_never_in_output
         [of "[''users'', ''*'', ''pass'']" users_cfg "[''users'', ''0'', ''pass'']"
             "JString ''abc''" users_input "JString ''changed''" "[]"]
       h d users_fields(2)
  show ?thesis
    by simp
qed

text \<open>
  C8. No stage reorders the elements of an array. Whatever the strategy, if the total
  enforcer returns on an array, it returns an array whose elements are, in the same
  order, elements of the input or markers put in their place; so does each single
  removal, and a removal at index \<open>i\<close> (when the element is deleted and not marked)
  gives the elements before \<open>i\<close> followed by those after \<open>i\<close>. The array the stripper
  returns consists, in the same order, of stripped elements of its input, and the array
  the field trimmer returns of trimmed elements of its input or markers. On an object
  the total enforcer returns an object each entry of which is an entry of the input as
  it was, or a marker: an array inside an entry is not touched.
\<close>

theorem array_order_preserved:
  "(enforceTotal t (JArray vv) = Some (Inr r) \<longrightarrow>
      (\<exists>out. r = JArray out \<and> list_emb kept_or_marker out vv))
   \<and> (\<exists>out. applyRemoval t tok (JArray vv) = JArray out \<and> list_emb kept_or_marker out vv)
   \<and> (HasPrefix tok ''idx:'' \<and> Sscanf_d (drop 4 tok) = Some (int i) \<and> i < length vv
       \<and> (ReplaceWithMarker (cfg t) \<longrightarrow> vv ! i = JString Marker) \<longrightarrow>
      applyRemoval t tok (JArray vv) = JArray (take i vv @ drop (Suc i) vv))
   \<and> (stripRecursive t (JArray vv) p = JArray out \<longrightarrow>
      list_emb (\<lambda>out inp. \<exists>q. out = stripRecursive t inp q) out vv)
   \<and> (trimFields t (JArray vv) depth = JArray out \<longrightarrow>
      list_emb (\<lambda>out inp. out = trimFields t inp (depth + 1) \<or> out = JString Marker) out vv)
   \<and> (enforceTotal t (JObject kvs) = Some (Inr r') \<longrightarrow>
      (\<exists>entries. r' = JObject entries \<and> list_all (entry_kept_or_marker kvs) entries))"
proof (intro conjI impI)
  assume "enforceTotal t (JArray vv) = Some (Inr r)"
  then show "\<exists>out. r = JArray out \<and> list_emb kept_or_marker out vv"
    by (rule enforceTotal_array)
next
  show "\<exists>out. applyRemoval t tok (JArray vv) = JArray out \<and> list_emb kept_or_marker out vv"
    by (rule applyRemoval_array)
next
  assume "HasPrefix tok ''idx:'' \<and> Sscanf_d (drop 4 tok) = Some (int i) \<and> i < length vv
       \<and> (ReplaceWithMarker (cfg t) \<longrightarrow> vv ! i = JString Marker)"
  then show "applyRemoval t tok (JArray vv) = JArray (take i vv @ drop (Suc i) vv)"
    by (intro applyRemoval_shift) simp_all
next
  assume "stripRecursive t (JArray vv) p = JArray out"
  then show "list_emb (\<lambda>out inp. \<exists>q. out = stripRecursive t inp q) out vv"
    by (rule stripRecursive_array_order)
next
  assume "trimFields t (JArray vv) depth = JArray out"
  then show "list_emb (\<lambda>out inp. out = trimFields t inp (depth + 1) \<or> out = JString Marker)
      out vv"
    by (rule trimFields_array_order)
next
  assume "enforceTotal t (JObject kvs) = Some (Inr r')"
  then show "\<exists>entries. r' = JObject entries \<and> list_all (entry_kept_or_marker kvs) entries"
    by (rule enforceTotal_object)
qed

theorem array_order_preserved_witness:
  "enforceTotal (New (idx_cfg None)) (JArray arr_input) = Some (Inr (JArray [JString ''cc'']))
   \<and> list_emb kept_or_marker [JString ''cc''] arr_input
   \<and> HasPrefix ''idx:1'' ''idx:'' \<and> Sscanf_d (drop 4 ''idx:1'') = Some (int 1)
   \<and> 1 < length arr_input \<and> \<not> ReplaceWithMarker (cfg (New (idx_cfg None)))
   \<and> applyRemoval (New (idx_cfg None)) ''idx:1'' (JArray arr_input)
       = JArray (take 1 arr_input @ drop (Suc 1) arr_input)
   \<and> take 1 arr_input @ drop (Suc 1) arr_input = [JString ''aaaa'', JString ''cc'']
   \<and> stripRecursive (New (idx_cfg None)) (JArray arr_input) [] = JArray arr_input
   \<and> list_emb (\<lambda>out inp. \<exists>q. out = stripRecursive (New (idx_cfg None)) inp q)
        arr_input arr_input
   \<and> trimFields (New (idx_cfg None)) (JArray arr_input) 1 = JArray arr_input
   \<and> list_emb (\<lambda>out inp. out = trimFields (New (idx_cfg None)) inp (1 + 1)
                  \<or> out = JString Marker) arr_input arr_input
   \<and> enforceTotal (New users_cfg) users_output = Some (Inr users_output)
   \<and> (\<exists>entries. users_output = JObject entries
        \<and> list_all (entry_kept_or_marker
             [(''users'', JArray [JObject [(''id'', JNumber ''1'')],
                                  JObject [(''id'', JNumber ''2'')]]),
              (''meta'', JObject [(''pass'', JString ''no-match'')])]) entries)"
proof -
  have h: "HasPrefix ''idx:1'' ''idx:'' \<and> Sscanf_d (drop 4 ''idx:1'') = Some (int 1)
      \<and> 1 < length arr_input \<and> \<not> ReplaceWithMarker (cfg (New (idx_cfg None)))"
    by (simp add: HasPrefix_def arr_scan arr_input_def idx_fields)
  have e: "take 1 arr_input @ drop (Suc 1) arr_input = [JString ''aaaa'', JString ''cc'']"
    by (simp add: arr_input_def)
  have u: "enforceTotal (New users_cfg)
      (JObject [(''users'', JArray [JObject [(''id'', JNumber ''1'')],
                                    JObject [(''id'', JNumber ''2'')]]),
                (''meta'', JObject [(''pass'', JString ''no-match'')])]) = Some (Inr users_output)"
    using users_enforceTotal by (simp add: users_output_def)
  from array_order_preserved
         [of "New (idx_cfg None)" arr_input "JArray [JString ''cc'']" "''idx:1''" 1
             "[]" arr_input 1]
       array_order_preserved
         [of "New users_cfg" _ _ _ _ _ _ _
             "[(''users'', JArray [JObject [(''id'', JNumber ''1'')],
                                  JObject [(''id'', JNumber ''2'')]]),
              (''meta'', JObject [(''pass'', JString ''no-match'')])]" users_output]
       arr_enforceTotal h e arr_strip arr_trimFields u users_enforceTotal
  show ?thesis
    by simp
qed

end
